theory Spec2Isabelle
  imports Main
begin

section \<open>Data model of \<^verbatim>\<open>emailservice.js\<close>\<close>

text \<open>
  The value every attempt and every message resolves to: the object
  \<^verbatim>\<open>{ success, message }\<close>.
\<close>

record result =
  success :: bool
  message :: string

text \<open>
  What a provider can throw, or reject its promise with. JavaScript lets any value be
  thrown: \<open>Value m\<close> is a value other than \<^verbatim>\<open>null\<close> and \<^verbatim>\<open>undefined\<close>, on which
  \<^verbatim>\<open>.message\<close> can be read and reads as \<open>m\<close> (an \<^verbatim>\<open>Error\<close> and its message);
  \<open>Nullish\<close> is \<^verbatim>\<open>null\<close> or \<^verbatim>\<open>undefined\<close>, on which reading a property throws.
\<close>

datatype thrown = Value string | Nullish

text \<open>
  What \<^verbatim>\<open>await provider.sendEmail(emailDetails)\<close> can do: resolve to a response, or
  throw. Only the truthiness of \<^verbatim>\<open>response.success\<close> and the message are read by the
  service; a response on which \<^verbatim>\<open>.success\<close> cannot be read throws inside the
  \<^verbatim>\<open>try\<close> like an unsuccessful one.
\<close>

datatype reply = Returns result | Throws thrown

text \<open>
  A provider has a name and a \<^verbatim>\<open>sendEmail\<close> method. The mock provider of the
  source is random, so the method is a function of the sequence number of the awaited
  operation as well as of the payload: every behaviour over time is some such function.
\<close>

record 'd provider =
  name :: string
  provider_sendEmail :: "nat \<Rightarrow> 'd \<Rightarrow> reply"

text \<open>
  The exceptions the service itself can raise, each a \<^verbatim>\<open>TypeError\<close>: reading
  \<^verbatim>\<open>.name\<close> of an \<^verbatim>\<open>undefined\<close> provider (lines 71 and 98), reading
  \<^verbatim>\<open>.message\<close> of a thrown \<^verbatim>\<open>null\<close> or \<^verbatim>\<open>undefined\<close> (line 80), and
  destructuring the \<^verbatim>\<open>undefined\<close> that \<^verbatim>\<open>shift\<close> returns on an empty queue
  (line 53).
\<close>

datatype cause = NameOfUndefined | MessageOfNullish | DestructureUndefined

datatype error = TypeError cause

text \<open>What an \<^verbatim>\<open>async\<close> method resolves to: an object, or \<^verbatim>\<open>undefined\<close>.\<close>

datatype ret = Undefined | Obj result

text \<open>
  The observable actions of a run, in the order they happen: a call of the provider at
  an index of the list with a payload, a \<^verbatim>\<open>sleep(ms)\<close>, the push of a timestamp
  on \<^verbatim>\<open>lastSentTimestamps\<close> and the assignment \<^verbatim>\<open>this.status[emailId] = status\<close>.
\<close>

datatype 'd event =
    ProviderCall nat 'd
  | Slept nat
  | TimestampPushed int
  | StatusSet string result

text \<open>
  The world outside the service: the clock read by \<^verbatim>\<open>Date.now()\<close> (milliseconds),
  the number of awaited operations so far, the time each awaited operation takes beyond
  what was asked for (\<open>lag\<close>, chosen by the environment), and the log of actions.
\<close>

record 'd world =
  clock :: int
  awaited :: nat
  lag :: "nat \<Rightarrow> nat"
  trace :: "'d event list"

text \<open>
  The fields of \<^verbatim>\<open>class EmailService\<close>. \<open>maxRetries\<close> and \<open>rateLimit\<close> are
  counts; the code only compares them with a loop counter and with a length, where a
  negative number behaves as \<open>0\<close>. \<open>status\<close> is the object used as a table from
  email id to result.
\<close>

record 'd EmailService =
  providers :: "'d provider list"
  currentProviderIndex :: nat
  maxRetries :: nat
  rateLimit :: nat
  status :: "string \<rightharpoonup> result"
  sentEmails :: "string set"
  emailQueue :: "(string \<times> 'd) list"
  lastSentTimestamps :: "int list"

section \<open>Operations\<close>

text \<open>The constructor (lines 16 to 25).\<close>

definition new_EmailService :: "'d provider list \<Rightarrow> nat \<Rightarrow> nat \<Rightarrow> 'd EmailService" where
  "new_EmailService ps mr rl =
     \<lparr> providers = ps, currentProviderIndex = 0, maxRetries = mr, rateLimit = rl,
       status = Map.empty, sentEmails = {}, emailQueue = [], lastSentTimestamps = [] \<rparr>"

text \<open>\<^verbatim>\<open>Date.now()\<close>.\<close>

definition Date_now :: "'d world \<Rightarrow> int" where
  "Date_now w = clock w"

text \<open>
  The delay \<^verbatim>\<open>setTimeout\<close> of Node.js really waits for: a delay below 1 or above
  2147483647 ms is set to 1 ms.
\<close>

definition timerDelay :: "nat \<Rightarrow> nat" where
  "timerDelay ms = (if ms < 1 \<or> 2147483647 < ms then 1 else ms)"

text \<open>
  \<^verbatim>\<open>await this.sleep(ms)\<close> (lines 101 to 103), for a call that runs alone: the timer
  fires no earlier than its delay. The logged event is the delay asked for.
\<close>

definition sleep :: "nat \<Rightarrow> 'd world \<Rightarrow> 'd world" where
  "sleep ms w =
     w\<lparr> clock := clock w + int (timerDelay ms) + int (lag w (awaited w)),
        awaited := Suc (awaited w),
        trace := trace w @ [Slept ms] \<rparr>"

text \<open>
  \<^verbatim>\<open>await provider.sendEmail(emailDetails)\<close> (line 74) for the provider found at
  index \<open>i\<close>: the reply, and the world after the call.
\<close>

definition callProvider :: "'d provider \<Rightarrow> nat \<Rightarrow> 'd \<Rightarrow> 'd world \<Rightarrow> reply \<times> 'd world" where
  "callProvider p i emailDetails w =
     (provider_sendEmail p (awaited w) emailDetails,
      w\<lparr> clock := clock w + int (lag w (awaited w)),
         awaited := Suc (awaited w),
         trace := trace w @ [ProviderCall i emailDetails] \<rparr>)"

text \<open>
  \<^verbatim>\<open>switchProvider\<close> (lines 96 to 99). With an empty list the remainder is
  \<^verbatim>\<open>NaN\<close> and the log line reads \<^verbatim>\<open>.name\<close> of \<^verbatim>\<open>undefined\<close>, which throws;
  with a non-empty list the new index is in range and the log line succeeds.
\<close>

definition switchProvider :: "'d EmailService \<Rightarrow> error + 'd EmailService" where
  "switchProvider s =
     (if providers s = [] then Inl (TypeError NameOfUndefined)
      else Inr (s\<lparr> currentProviderIndex :=
                     (currentProviderIndex s + 1) mod length (providers s) \<rparr>))"

text \<open>
  What the \<^verbatim>\<open>try\<close> block of lines 73 to 78 hands to the \<^verbatim>\<open>catch\<close>: nothing when
  the response is successful, otherwise the thrown value, which is what the provider
  threw or the \<^verbatim>\<open>Error\<close> that line 78 makes of the message of the response.
\<close>

definition caught :: "reply \<Rightarrow> thrown option" where
  "caught r =
     (case r of
        Returns response \<Rightarrow> if success response then None else Some (Value (message response))
      | Throws e \<Rightarrow> Some e)"

text \<open>
  The \<^verbatim>\<open>while\<close> loop of \<^verbatim>\<open>trySendWithRetries\<close> (lines 69 to 93), entered with
  the current value of \<open>attempt\<close>, for a call that runs alone: no other call changes the
  service while this one awaits. The provider is looked up on every iteration; the log
  line 71 reads its name outside the \<^verbatim>\<open>try\<close>, so a missing provider is a
  \<open>TypeError\<close> that leaves the method. The first statement of the \<^verbatim>\<open>catch\<close>
  (line 80) reads \<^verbatim>\<open>error.message\<close>: on a thrown \<^verbatim>\<open>null\<close> or
  \<^verbatim>\<open>undefined\<close> this is a \<open>TypeError\<close> raised inside the \<^verbatim>\<open>catch\<close>, which
  leaves the method before \<open>attempt\<close> is counted.
\<close>

function trySendLoop ::
  "nat \<Rightarrow> string \<Rightarrow> 'd \<Rightarrow> 'd EmailService \<Rightarrow> 'd world \<Rightarrow> (error + result) \<times> 'd EmailService \<times> 'd world"
where
  "trySendLoop attempt emailId emailDetails s w =
     (if attempt < maxRetries s then
        (if currentProviderIndex s < length (providers s) then
           (case callProvider (providers s ! currentProviderIndex s) (currentProviderIndex s)
                   emailDetails w of
              (response, w1) \<Rightarrow>
                (case caught response of
                   None \<Rightarrow> (Inr \<lparr> success = True, message = ''Email sent successfully.'' \<rparr>, s, w1)
                 | Some Nullish \<Rightarrow> (Inl (TypeError MessageOfNullish), s, w1)
                 | Some (Value err) \<Rightarrow>
                     (if Suc attempt < maxRetries s then
                        trySendLoop (Suc attempt) emailId emailDetails s
                          (sleep (2 ^ Suc attempt * 100) w1)
                      else
                        (case switchProvider s of
                           Inl e \<Rightarrow> (Inl e, s, w1)
                         | Inr s' \<Rightarrow> trySendLoop (Suc attempt) emailId emailDetails s' w1))))
         else (Inl (TypeError NameOfUndefined), s, w))
      else (Inr \<lparr> success = False, message = ''All attempts failed.'' \<rparr>, s, w))"
  by pat_completeness auto
termination
  by (relation "measure (\<lambda>(attempt, emailId, emailDetails, s, w). maxRetries s - attempt)")
     (auto simp: switchProvider_def split: if_splits)

declare trySendLoop.simps [simp del]

text \<open>\<^verbatim>\<open>trySendWithRetries\<close> (lines 67 to 94): the loop from \<open>attempt = 0\<close>.\<close>

definition trySendWithRetries ::
  "string \<Rightarrow> 'd \<Rightarrow> 'd EmailService \<Rightarrow> 'd world \<Rightarrow> (error + result) \<times> 'd EmailService \<times> 'd world"
where
  "trySendWithRetries emailId emailDetails s w = trySendLoop 0 emailId emailDetails s w"

text \<open>
  One iteration of the \<^verbatim>\<open>while\<close> loop of \<^verbatim>\<open>processQueue\<close> (lines 40 to 63),
  entered with a non-empty queue, for a loop that runs alone. An exception of
  \<^verbatim>\<open>trySendWithRetries\<close> leaves the loop after the \<^verbatim>\<open>shift\<close>.
\<close>

definition drainStep ::
  "'d EmailService \<Rightarrow> 'd world \<Rightarrow> (error + unit) \<times> 'd EmailService \<times> 'd world"
where
  "drainStep s w =
     (let now = Date_now w;
          s1 = s\<lparr> lastSentTimestamps :=
                    filter (\<lambda>timestamp. now - timestamp < 60000) (lastSentTimestamps s) \<rparr>
      in if length (lastSentTimestamps s1) \<ge> rateLimit s1 then (Inr (), s1, sleep 1000 w)
         else
           (case emailQueue s1 of
              [] \<Rightarrow> (Inl (TypeError DestructureUndefined), s1, w)
            | (emailId, emailDetails) # rest \<Rightarrow>
                (case trySendWithRetries emailId emailDetails (s1\<lparr> emailQueue := rest \<rparr>) w of
                   (Inl e, s3, w3) \<Rightarrow> (Inl e, s3, w3)
                 | (Inr st, s3, w3) \<Rightarrow>
                     (if success st then
                        (Inr (),
                         s3\<lparr> sentEmails := insert emailId (sentEmails s3),
                             lastSentTimestamps := lastSentTimestamps s3 @ [Date_now w3],
                             status := (status s3)(emailId \<mapsto> st) \<rparr>,
                         w3\<lparr> trace := trace w3 @ [TimestampPushed (Date_now w3), StatusSet emailId st] \<rparr>)
                      else
                        (Inr (),
                         s3\<lparr> status := (status s3)(emailId \<mapsto> st) \<rparr>,
                         w3\<lparr> trace := trace w3 @ [StatusSet emailId st] \<rparr>)))))"

text \<open>
  \<^verbatim>\<open>processQueue\<close> (lines 38 to 65), for a loop that runs alone: the loop runs while
  the queue is non-empty and may run forever, in which case the value is \<open>None\<close>. The
  method has no \<^verbatim>\<open>return\<close> statement: when the loop ends it resolves to
  \<^verbatim>\<open>undefined\<close>.
\<close>

partial_function (option) processQueue ::
  "'d EmailService \<Rightarrow> 'd world \<Rightarrow> ((error + ret) \<times> 'd EmailService \<times> 'd world) option"
where
  "processQueue s w =
     (if emailQueue s \<noteq> [] then
        (case drainStep s w of
           (Inl e, s', w') \<Rightarrow> Some (Inl e, s', w')
         | (Inr u, s', w') \<Rightarrow> processQueue s' w')
      else Some (Inr Undefined, s, w))"

text \<open>
  \<^verbatim>\<open>sendEmail\<close> (lines 27 to 36), for a call that is awaited before the next call is
  made. Calls that overlap are the subject of the section on overlapping calls.
\<close>

definition sendEmail ::
  "string \<Rightarrow> 'd \<Rightarrow> 'd EmailService \<Rightarrow> 'd world \<Rightarrow> ((error + ret) \<times> 'd EmailService \<times> 'd world) option"
where
  "sendEmail emailId emailDetails s w =
     (if emailId \<in> sentEmails s then
        Some (Inr (Obj \<lparr> success = True, message = ''Duplicate email prevented.'' \<rparr>), s, w)
      else processQueue (s\<lparr> emailQueue := emailQueue s @ [(emailId, emailDetails)] \<rparr>) w)"

section \<open>Overlapping calls\<close>

text \<open>
  \<^verbatim>\<open>sendEmail\<close>, \<^verbatim>\<open>processQueue\<close> and \<^verbatim>\<open>trySendWithRetries\<close> are
  \<^verbatim>\<open>async\<close>: a call runs until its first \<^verbatim>\<open>await\<close> and hands a promise back,
  and the caller may make the next call without awaiting it. Every call of
  \<^verbatim>\<open>sendEmail\<close> that gets past line 31 starts a \<^verbatim>\<open>processQueue\<close> loop of its own
  (line 35); nothing in the class recalls that a loop is running. The calls in flight
  take turns: each runs from one \<^verbatim>\<open>await\<close> to its next without interruption, and
  between two such runs any other call may run. All of them share the fields of the
  service.

  A task is a call of \<^verbatim>\<open>sendEmail\<close> in flight, with what it holds in its local
  variables where it is suspended:
  \<^item> at line 74, awaiting the provider's promise, with \<open>emailId\<close>, \<open>emailDetails\<close>,
    \<open>attempt\<close> and the reply the promise will settle with;
  \<^item> at line 86, awaiting the backoff timer, with \<open>emailId\<close>, \<open>emailDetails\<close>,
    \<open>attempt\<close> (already counted up) and the time the timer fires;
  \<^item> at line 54, awaiting the promise of \<^verbatim>\<open>trySendWithRetries\<close>, which has settled
    with a result or an exception;
  \<^item> at line 49, awaiting the timer of the rate limiter, with the time it fires;
  \<^item> settled: the promise of \<^verbatim>\<open>sendEmail\<close> is resolved or rejected.
\<close>

datatype 'd task =
    AwaitProvider string 'd nat reply
  | AwaitBackoff string 'd nat int
  | AwaitStatus string "error + result"
  | AwaitRateLimit int
  | Settled "error + ret"

text \<open>The service, the world and the calls made so far, in the order they were made.\<close>

record 'd system =
  service :: "'d EmailService"
  env :: "'d world"
  tasks :: "'d task list"

text \<open>
  \<^verbatim>\<open>this.sleep(ms)\<close> up to the \<^verbatim>\<open>await\<close>: the timer is set and the time it
  fires is returned. How long anything takes is up to the schedule, so the \<open>lag\<close> of
  the world plays no part when calls overlap.
\<close>

definition startTimer :: "nat \<Rightarrow> 'd world \<Rightarrow> int \<times> 'd world" where
  "startTimer ms w =
     (clock w + int (timerDelay ms),
      w\<lparr> awaited := Suc (awaited w), trace := trace w @ [Slept ms] \<rparr>)"

text \<open>
  \<^verbatim>\<open>trySendWithRetries\<close> from the test of the \<^verbatim>\<open>while\<close> (line 69) to the next
  \<^verbatim>\<open>await\<close>: the provider is looked up with the cursor as it is now (line 70) and
  called, or the loop ends and the method returns the failure.
\<close>

definition attemptFrom ::
  "nat \<Rightarrow> string \<Rightarrow> 'd \<Rightarrow> 'd EmailService \<Rightarrow> 'd world \<Rightarrow> 'd task \<times> 'd EmailService \<times> 'd world"
where
  "attemptFrom attempt emailId emailDetails s w =
     (if attempt < maxRetries s then
        (if currentProviderIndex s < length (providers s) then
           (AwaitProvider emailId emailDetails attempt
              (provider_sendEmail (providers s ! currentProviderIndex s) (awaited w) emailDetails),
            s,
            w\<lparr> awaited := Suc (awaited w),
               trace := trace w @ [ProviderCall (currentProviderIndex s) emailDetails] \<rparr>)
         else (AwaitStatus emailId (Inl (TypeError NameOfUndefined)), s, w))
      else (AwaitStatus emailId (Inr \<lparr> success = False, message = ''All attempts failed.'' \<rparr>),
            s, w))"

text \<open>
  \<^verbatim>\<open>trySendWithRetries\<close> from the settling of the provider's promise (line 74) to the
  next \<^verbatim>\<open>await\<close> or to its return (lines 75 to 93).
\<close>

definition afterReply ::
  "string \<Rightarrow> 'd \<Rightarrow> nat \<Rightarrow> reply \<Rightarrow> 'd EmailService \<Rightarrow> 'd world \<Rightarrow> 'd task \<times> 'd EmailService \<times> 'd world"
where
  "afterReply emailId emailDetails attempt response s w =
     (case caught response of
        None \<Rightarrow>
          (AwaitStatus emailId (Inr \<lparr> success = True, message = ''Email sent successfully.'' \<rparr>),
           s, w)
      | Some Nullish \<Rightarrow> (AwaitStatus emailId (Inl (TypeError MessageOfNullish)), s, w)
      | Some (Value err) \<Rightarrow>
          (if Suc attempt < maxRetries s then
             (case startTimer (2 ^ Suc attempt * 100) w of
                (wake, w1) \<Rightarrow> (AwaitBackoff emailId emailDetails (Suc attempt) wake, s, w1))
           else
             (case switchProvider s of
                Inl e \<Rightarrow> (AwaitStatus emailId (Inl e), s, w)
              | Inr s' \<Rightarrow> attemptFrom (Suc attempt) emailId emailDetails s' w)))"

text \<open>
  \<^verbatim>\<open>processQueue\<close> from the test of the \<^verbatim>\<open>while\<close> (line 39) to the next
  \<^verbatim>\<open>await\<close>, or to the end of the loop.
\<close>

definition loopFrom ::
  "'d EmailService \<Rightarrow> 'd world \<Rightarrow> 'd task \<times> 'd EmailService \<times> 'd world"
where
  "loopFrom s w =
     (if emailQueue s \<noteq> [] then
        (let now = Date_now w;
             s1 = s\<lparr> lastSentTimestamps :=
                       filter (\<lambda>timestamp. now - timestamp < 60000) (lastSentTimestamps s) \<rparr>
         in if length (lastSentTimestamps s1) \<ge> rateLimit s1 then
              (case startTimer 1000 w of (wake, w1) \<Rightarrow> (AwaitRateLimit wake, s1, w1))
            else
              (case emailQueue s1 of
                 [] \<Rightarrow> (Settled (Inl (TypeError DestructureUndefined)), s1, w)
               | (emailId, emailDetails) # rest \<Rightarrow>
                   attemptFrom 0 emailId emailDetails (s1\<lparr> emailQueue := rest \<rparr>) w))
      else (Settled (Inr Undefined), s, w))"

text \<open>
  \<^verbatim>\<open>processQueue\<close> from the settling of the promise of
  \<^verbatim>\<open>trySendWithRetries\<close> (line 54) through lines 56 to 63 and on into the loop.
\<close>

definition afterStatus ::
  "string \<Rightarrow> error + result \<Rightarrow> 'd EmailService \<Rightarrow> 'd world \<Rightarrow> 'd task \<times> 'd EmailService \<times> 'd world"
where
  "afterStatus emailId outcome s w =
     (case outcome of
        Inl e \<Rightarrow> (Settled (Inl e), s, w)
      | Inr st \<Rightarrow>
          (if success st then
             loopFrom
               (s\<lparr> sentEmails := insert emailId (sentEmails s),
                   lastSentTimestamps := lastSentTimestamps s @ [Date_now w],
                   status := (status s)(emailId \<mapsto> st) \<rparr>)
               (w\<lparr> trace := trace w @ [TimestampPushed (Date_now w), StatusSet emailId st] \<rparr>)
           else
             loopFrom
               (s\<lparr> status := (status s)(emailId \<mapsto> st) \<rparr>)
               (w\<lparr> trace := trace w @ [StatusSet emailId st] \<rparr>)))"

text \<open>The system with one more task, the call that has just run to its first \<^verbatim>\<open>await\<close>.\<close>

definition enrol :: "'d task \<times> 'd EmailService \<times> 'd world \<Rightarrow> 'd system \<Rightarrow> 'd system" where
  "enrol x sys =
     (case x of (task, s, w) \<Rightarrow>
        sys\<lparr> service := s, env := w, tasks := tasks sys @ [task] \<rparr>)"

text \<open>The system after task \<open>k\<close> has run to its next \<^verbatim>\<open>await\<close>.\<close>

definition park :: "nat \<Rightarrow> 'd task \<times> 'd EmailService \<times> 'd world \<Rightarrow> 'd system \<Rightarrow> 'd system" where
  "park k x sys =
     (case x of (task, s, w) \<Rightarrow>
        sys\<lparr> service := s, env := w, tasks := (tasks sys)[k := task] \<rparr>)"

text \<open>
  A new call of \<^verbatim>\<open>sendEmail\<close> at time \<open>t\<close> (lines 27 to 36), up to its first
  \<^verbatim>\<open>await\<close>. Time does not go back.
\<close>

definition call :: "int \<Rightarrow> string \<Rightarrow> 'd \<Rightarrow> 'd system \<Rightarrow> 'd system option" where
  "call t emailId emailDetails sys =
     (if clock (env sys) \<le> t then
        (let s = service sys; w = (env sys)\<lparr> clock := t \<rparr>
         in if emailId \<in> sentEmails s then
              Some (enrol
                (Settled (Inr (Obj \<lparr> success = True, message = ''Duplicate email prevented.'' \<rparr>)),
                 s, w) sys)
            else
              Some (enrol
                (loopFrom (s\<lparr> emailQueue := emailQueue s @ [(emailId, emailDetails)] \<rparr>) w) sys))
      else None)"

text \<open>
  Task \<open>k\<close> goes on at time \<open>t\<close>: the promise it awaits has settled. A timer does
  not fire before its time; a settled task has nothing left to run.
\<close>

definition resume :: "int \<Rightarrow> nat \<Rightarrow> 'd system \<Rightarrow> 'd system option" where
  "resume t k sys =
     (if k < length (tasks sys) \<and> clock (env sys) \<le> t then
        (let s = service sys; w = (env sys)\<lparr> clock := t \<rparr>
         in case tasks sys ! k of
              AwaitProvider emailId emailDetails attempt response \<Rightarrow>
                Some (park k (afterReply emailId emailDetails attempt response s w) sys)
            | AwaitBackoff emailId emailDetails attempt wake \<Rightarrow>
                (if wake \<le> t
                 then Some (park k (attemptFrom attempt emailId emailDetails s w) sys)
                 else None)
            | AwaitStatus emailId outcome \<Rightarrow>
                Some (park k (afterStatus emailId outcome s w) sys)
            | AwaitRateLimit wake \<Rightarrow>
                (if wake \<le> t then Some (park k (loopFrom s w) sys) else None)
            | Settled v \<Rightarrow> None)
      else None)"

text \<open>What the scheduler and the callers do, one action at a time.\<close>

datatype 'd action = Call int string 'd | Resume int nat

fun act :: "'d action \<Rightarrow> 'd system \<Rightarrow> 'd system option" where
  "act (Call t emailId emailDetails) sys = call t emailId emailDetails sys"
| "act (Resume t k) sys = resume t k sys"

fun run :: "'d action list \<Rightarrow> 'd system \<Rightarrow> 'd system option" where
  "run [] sys = Some sys"
| "run (a # acts) sys = (case act a sys of None \<Rightarrow> None | Some sys' \<Rightarrow> run acts sys')"

text \<open>A service on which no call has been made yet.\<close>

definition boot :: "'d EmailService \<Rightarrow> 'd world \<Rightarrow> 'd system" where
  "boot s w = \<lparr> service = s, env = w, tasks = [] \<rparr>"

text \<open>The system in which one call is in flight and no other call was made.\<close>

definition alone :: "'d task \<times> 'd EmailService \<times> 'd world \<Rightarrow> 'd system" where
  "alone x = (case x of (task, s, w) \<Rightarrow> \<lparr> service = s, env = w, tasks = [task] \<rparr>)"

section \<open>Observations on runs\<close>

text \<open>The actions logged between two worlds of one run.\<close>

definition since :: "'d world \<Rightarrow> 'd world \<Rightarrow> 'd event list" where
  "since w w' = drop (length (trace w)) (trace w')"

text \<open>The provider calls of a log, as pairs of provider index and payload, in order.\<close>

fun calls :: "'d event list \<Rightarrow> (nat \<times> 'd) list" where
  "calls [] = []"
| "calls (ProviderCall i d # evs) = (i, d) # calls evs"
| "calls (e # evs) = calls evs"

text \<open>The timestamps pushed on the ledger in a log, in order.\<close>

fun pushedAt :: "'d event list \<Rightarrow> int list" where
  "pushedAt [] = []"
| "pushedAt (TimestampPushed t # evs) = t # pushedAt evs"
| "pushedAt (e # evs) = pushedAt evs"

text \<open>The ids whose status was recorded in a log, in the order of recording.\<close>

fun statusIds :: "'d event list \<Rightarrow> string list" where
  "statusIds [] = []"
| "statusIds (StatusSet emailId st # evs) = emailId # statusIds evs"
| "statusIds (e # evs) = statusIds evs"

text \<open>The ids for which a log records a successful status.\<close>

fun succeeded :: "'d event list \<Rightarrow> string set" where
  "succeeded [] = {}"
| "succeeded (StatusSet emailId st # evs) =
     (if success st then insert emailId (succeeded evs) else succeeded evs)"
| "succeeded (e # evs) = succeeded evs"

text \<open>
  The log of \<open>n\<close> attempts against the provider at index \<open>j\<close>, the first of them made
  with \<open>attempt = a\<close>: calls separated by backoff waits, and no wait after the last call.
\<close>

fun backoffTrace :: "nat \<Rightarrow> 'd \<Rightarrow> nat \<Rightarrow> nat \<Rightarrow> 'd event list" where
  "backoffTrace j d a 0 = []"
| "backoffTrace j d a (Suc 0) = [ProviderCall j d]"
| "backoffTrace j d a (Suc (Suc n)) =
     ProviderCall j d # Slept (2 ^ Suc a * 100) # backoffTrace j d (Suc a) (Suc n)"

text \<open>The number of timestamps of a list inside the window of 60 seconds that starts at \<open>a\<close>.\<close>

definition inWindow :: "int \<Rightarrow> int list \<Rightarrow> nat" where
  "inWindow a ts = length (filter (\<lambda>t. a \<le> t \<and> t < a + 60000) ts)"

text \<open>
  How the ledger \<open>L\<close> stands to the history \<open>H\<close> of all timestamps ever pushed, at
  time \<open>c\<close> and under the cap: no timestamp is in the future, the ledger and the
  history agree on the last 60 seconds, and no window of 60 seconds holds more than the
  cap of them.
\<close>

definition ledgerOk :: "int list \<Rightarrow> int list \<Rightarrow> int \<Rightarrow> nat \<Rightarrow> bool" where
  "ledgerOk L H c cap \<longleftrightarrow>
     list_all (\<lambda>t. t \<le> c) H \<and>
     filter (\<lambda>t. c - t < 60000) L = filter (\<lambda>t. c - t < 60000) H \<and>
     (\<forall>a. inWindow a H \<le> cap)"

text \<open>
  The time the timestamps of a ledger still have to live at time \<open>c\<close>, summed over
  the ledger: what the waits of the rate limiter use up.
\<close>

definition expiry :: "int \<Rightarrow> int list \<Rightarrow> nat" where
  "expiry c L = sum_list (map (\<lambda>t. nat (t + 60000 - c)) L)"

text \<open>
  A provider that rejects with an unsuccessful response wherever the given one throws a
  value with a message, with the same message.
\<close>

definition faultsAsRejections :: "'d provider \<Rightarrow> 'd provider" where
  "faultsAsRejections p =
     p\<lparr> provider_sendEmail := (\<lambda>k d.
          case provider_sendEmail p k d of
            Throws (Value m) \<Rightarrow> Returns \<lparr> success = False, message = m \<rparr>
          | Throws Nullish \<Rightarrow> Throws Nullish
          | Returns response \<Rightarrow> Returns response) \<rparr>"

text \<open>The service with every provider replaced by its rejecting counterpart.\<close>

definition withFaultsAsRejections :: "'d EmailService \<Rightarrow> 'd EmailService" where
  "withFaultsAsRejections s = s\<lparr> providers := map faultsAsRejections (providers s) \<rparr>"

text \<open>
  The states a service goes through when one drain loop runs at a time: it is
  constructed; a \<^verbatim>\<open>sendEmail\<close> for an id that is not in \<open>sentEmails\<close> pushes on
  the queue; the drain loop runs one iteration while the queue is not empty; time passes
  between calls. The states of a service whose calls overlap are those of \<open>run\<close>.
\<close>

inductive reach :: "'d EmailService \<Rightarrow> 'd world \<Rightarrow> bool" where
  init: "trace w = [] \<Longrightarrow> reach (new_EmailService ps mr rl) w"
| push: "reach s w \<Longrightarrow> emailId \<notin> sentEmails s \<Longrightarrow>
         reach (s\<lparr> emailQueue := emailQueue s @ [(emailId, emailDetails)] \<rparr>) w"
| iterate: "reach s w \<Longrightarrow> emailQueue s \<noteq> [] \<Longrightarrow> drainStep s w = (r, s', w') \<Longrightarrow> reach s' w'"
| idle: "reach s w \<Longrightarrow> reach s (w\<lparr> clock := clock w + int dt \<rparr>)"

text \<open>The index of the current provider is an index of the provider list.\<close>

definition cursorOk :: "'d EmailService \<Rightarrow> bool" where
  "cursorOk s \<longleftrightarrow> currentProviderIndex s < length (providers s)"

text \<open>
  Whether the current provider of \<open>s\<close> fails (throws a value with a message, or returns
  an unsuccessful response) at the attempt number \<open>k\<close>, counted from \<open>0\<close>, of a
  message whose processing starts in world \<open>w\<close>: each earlier attempt was one awaited
  call followed by one awaited wait.
\<close>

definition failedAt :: "'d EmailService \<Rightarrow> 'd world \<Rightarrow> 'd \<Rightarrow> nat \<Rightarrow> bool" where
  "failedAt s w d k \<longleftrightarrow>
     (case caught (provider_sendEmail (providers s ! currentProviderIndex s)
                     (awaited w + 2 * k) d) of
        Some (Value m) \<Rightarrow> True
      | _ \<Rightarrow> False)"

text \<open>
  The ledger after the pruning of lines 43 to 45: the timestamps less than 60000 ms
  before now.
\<close>

definition recent :: "'d EmailService \<Rightarrow> 'd world \<Rightarrow> int list" where
  "recent s w = filter (\<lambda>timestamp. Date_now w - timestamp < 60000) (lastSentTimestamps s)"

section \<open>Fixtures of the scenarios\<close>

text \<open>
  Mock providers that always deliver, always throw an \<^verbatim>\<open>Error\<close>, and always
  reject.
\<close>

definition alwaysDelivers :: "string \<Rightarrow> 'd provider" where
  "alwaysDelivers n =
     \<lparr> name = n, provider_sendEmail = (\<lambda>k d. Returns \<lparr> success = True, message = [] \<rparr>) \<rparr>"

definition alwaysThrows :: "string \<Rightarrow> 'd provider" where
  "alwaysThrows n =
     \<lparr> name = n,
       provider_sendEmail = (\<lambda>k d. Throws (Value ''Simulated provider failure.'')) \<rparr>"

text \<open>A provider whose \<^verbatim>\<open>sendEmail\<close> always throws \<^verbatim>\<open>null\<close>.\<close>

definition throwsNull :: "string \<Rightarrow> 'd provider" where
  "throwsNull n = \<lparr> name = n, provider_sendEmail = (\<lambda>k d. Throws Nullish) \<rparr>"

definition alwaysRejects :: "string \<Rightarrow> 'd provider" where
  "alwaysRejects n =
     \<lparr> name = n, provider_sendEmail = (\<lambda>k d. Returns \<lparr> success = False, message = ''rejected'' \<rparr>) \<rparr>"

text \<open>A provider that throws an \<^verbatim>\<open>Error\<close> on the first awaited operation and delivers after.\<close>

definition failsFirst :: "string \<Rightarrow> 'd provider" where
  "failsFirst n =
     \<lparr> name = n,
       provider_sendEmail = (\<lambda>k d. if k = 0 then Throws (Value ''Simulated provider failure.'')
                                   else Returns \<lparr> success = True, message = [] \<rparr>) \<rparr>"

text \<open>A world that starts at time \<open>0\<close> where no operation takes longer than asked.\<close>

definition world0 :: "'d world" where
  "world0 = \<lparr> clock = 0, awaited = 0, lag = (\<lambda>k. 0), trace = [] \<rparr>"

section \<open>The retry loop, step by step\<close>

lemma trySendLoop_done:
  "\<not> attempt < maxRetries s \<Longrightarrow>
   trySendLoop attempt emailId emailDetails s w =
     (Inr \<lparr> success = False, message = ''All attempts failed.'' \<rparr>, s, w)"
  by (simp add: trySendLoop.simps)

lemma trySendLoop_undefined:
  "attempt < maxRetries s \<Longrightarrow> \<not> currentProviderIndex s < length (providers s) \<Longrightarrow>
   trySendLoop attempt emailId emailDetails s w = (Inl (TypeError NameOfUndefined), s, w)"
  by (simp add: trySendLoop.simps)

lemma trySendLoop_sent:
  "attempt < maxRetries s \<Longrightarrow> currentProviderIndex s < length (providers s) \<Longrightarrow>
   callProvider (providers s ! currentProviderIndex s) (currentProviderIndex s) emailDetails w
     = (response, w1) \<Longrightarrow>
   caught response = None \<Longrightarrow>
   trySendLoop attempt emailId emailDetails s w =
     (Inr \<lparr> success = True, message = ''Email sent successfully.'' \<rparr>, s, w1)"
  by (simp add: trySendLoop.simps[of attempt])

lemma trySendLoop_retry:
  "Suc attempt < maxRetries s \<Longrightarrow> currentProviderIndex s < length (providers s) \<Longrightarrow>
   callProvider (providers s ! currentProviderIndex s) (currentProviderIndex s) emailDetails w
     = (response, w1) \<Longrightarrow>
   caught response = Some (Value err) \<Longrightarrow>
   trySendLoop attempt emailId emailDetails s w =
     trySendLoop (Suc attempt) emailId emailDetails s (sleep (2 ^ Suc attempt * 100) w1)"
  by (simp add: trySendLoop.simps[of attempt])

lemma trySendLoop_nullish:
  "attempt < maxRetries s \<Longrightarrow> currentProviderIndex s < length (providers s) \<Longrightarrow>
   callProvider (providers s ! currentProviderIndex s) (currentProviderIndex s) emailDetails w
     = (response, w1) \<Longrightarrow>
   caught response = Some Nullish \<Longrightarrow>
   trySendLoop attempt emailId emailDetails s w = (Inl (TypeError MessageOfNullish), s, w1)"
  by (simp add: trySendLoop.simps[of attempt])

lemma trySendLoop_exhausted:
  "attempt < maxRetries s \<Longrightarrow> \<not> Suc attempt < maxRetries s \<Longrightarrow>
   currentProviderIndex s < length (providers s) \<Longrightarrow>
   callProvider (providers s ! currentProviderIndex s) (currentProviderIndex s) emailDetails w
     = (response, w1) \<Longrightarrow>
   caught response = Some (Value err) \<Longrightarrow>
   trySendLoop attempt emailId emailDetails s w =
     (Inr \<lparr> success = False, message = ''All attempts failed.'' \<rparr>,
      s\<lparr> currentProviderIndex := (currentProviderIndex s + 1) mod length (providers s) \<rparr>, w1)"
proof -
  assume a: "attempt < maxRetries s" "\<not> Suc attempt < maxRetries s"
    "currentProviderIndex s < length (providers s)"
    "callProvider (providers s ! currentProviderIndex s) (currentProviderIndex s) emailDetails w
     = (response, w1)" "caught response = Some (Value err)"
  let ?s2 = "s\<lparr> currentProviderIndex := (currentProviderIndex s + 1) mod length (providers s) \<rparr>"
  have sw: "switchProvider s = Inr ?s2"
    using a(3) by (auto simp: switchProvider_def)
  have "trySendLoop attempt emailId emailDetails s w = trySendLoop (Suc attempt) emailId emailDetails ?s2 w1"
    using a sw by (simp add: trySendLoop.simps[of attempt])
  also have "\<dots> = (Inr \<lparr> success = False, message = ''All attempts failed.'' \<rparr>, ?s2, w1)"
    using a(2) by (simp add: trySendLoop_done)
  finally show ?thesis .
qed

lemma callProvider_world:
  "callProvider p i d w = (response, w1) \<Longrightarrow>
   trace w1 = trace w @ [ProviderCall i d] \<and> lag w1 = lag w \<and> clock w \<le> clock w1 \<and>
   awaited w1 = Suc (awaited w) \<and> response = provider_sendEmail p (awaited w) d"
  by (auto simp: callProvider_def)

lemma timerDelay_pos: "0 < timerDelay ms"
  by (simp add: timerDelay_def)

lemma sleep_world:
  "trace (sleep ms w) = trace w @ [Slept ms] \<and> lag (sleep ms w) = lag w \<and>
   clock w < clock (sleep ms w) \<and> awaited (sleep ms w) = Suc (awaited w)"
  using timerDelay_pos[of ms] by (simp add: sleep_def)

lemma trySendLoop_shape:
  "currentProviderIndex s < length (providers s) \<Longrightarrow>
   trySendLoop a emailId d s w = (r, s', w') \<Longrightarrow>
   \<exists>n. trace w' = trace w @ backoffTrace (currentProviderIndex s) d a n \<and>
       a + n \<le> max a (maxRetries s) \<and>
       lag w' = lag w \<and> clock w \<le> clock w' \<and> awaited w' = awaited w + (2 * n - 1) \<and>
       (r = Inr \<lparr> success = True, message = ''Email sent successfully.'' \<rparr> \<and> 0 < n \<and> s' = s
        \<or> r = Inr \<lparr> success = False, message = ''All attempts failed.'' \<rparr> \<and>
          maxRetries s \<le> a + n \<and>
          s' = (if n = 0 then s
                else s\<lparr> currentProviderIndex :=
                         (currentProviderIndex s + 1) mod length (providers s) \<rparr>)
        \<or> r = Inl (TypeError MessageOfNullish) \<and> 0 < n \<and> s' = s)"
proof (induction a emailId d s w arbitrary: r s' w' rule: trySendLoop.induct)
  case (1 attempt emailId emailDetails s w)
  note run = "1.prems"(2) and inrange = "1.prems"(1)
  show ?case
  proof (cases "attempt < maxRetries s")
    case False
    with run show ?thesis
      by (intro exI[of _ 0]) (auto simp: trySendLoop_done)
  next
    case lt: True
    obtain response w1 where cp: "callProvider (providers s ! currentProviderIndex s) (currentProviderIndex s) emailDetails w = (response, w1)"
      by (cases "callProvider (providers s ! currentProviderIndex s) (currentProviderIndex s) emailDetails w")
    note w1 = callProvider_world[OF cp]
    show ?thesis
    proof (cases "caught response")
      case None
      from run trySendLoop_sent[OF lt inrange cp None] w1 lt show ?thesis
        by (intro exI[of _ 1]) auto
    next
      case (Some e)
      show ?thesis
      proof (cases e)
        case Nullish
        with Some have null: "caught response = Some Nullish" by simp
        from run trySendLoop_nullish[OF lt inrange cp null] w1 lt show ?thesis
          by (intro exI[of _ 1]) auto
      next
      case (Value err)
      with Some have failed: "caught response = Some (Value err)" by simp
      show ?thesis
      proof (cases "Suc attempt < maxRetries s")
        case True
        let ?w2 = "sleep (2 ^ Suc attempt * 100) w1"
        note w2 = sleep_world[of "2 ^ Suc attempt * 100" w1]
        have eq: "trySendLoop (Suc attempt) emailId emailDetails s ?w2 = (r, s', w')"
          using run trySendLoop_retry[OF True inrange cp failed] by simp
        from "1.IH"(1)[OF lt inrange cp[symmetric] Some Value True inrange eq]
        obtain n where n: "trace w' = trace ?w2 @ backoffTrace (currentProviderIndex s) emailDetails (Suc attempt) n"
          "Suc attempt + n \<le> max (Suc attempt) (maxRetries s)"
          "lag w' = lag ?w2" "clock ?w2 \<le> clock w'" "awaited w' = awaited ?w2 + (2 * n - 1)"
          "r = Inr \<lparr> success = True, message = ''Email sent successfully.'' \<rparr> \<and> 0 < n \<and> s' = s
        \<or> r = Inr \<lparr> success = False, message = ''All attempts failed.'' \<rparr> \<and>
          maxRetries s \<le> Suc attempt + n \<and>
          s' = (if n = 0 then s
                else s\<lparr> currentProviderIndex :=
                         (currentProviderIndex s + 1) mod length (providers s) \<rparr>)
        \<or> r = Inl (TypeError MessageOfNullish) \<and> 0 < n \<and> s' = s"
          by blast
        have npos: "0 < n"
          using n(6) True by auto
        then obtain m where m: "n = Suc m" by (cases n) auto
        have clk: "clock w \<le> clock w'" using w1 w2 n(4) by linarith
        have tr: "trace w' = trace w @ backoffTrace (currentProviderIndex s) emailDetails attempt (Suc n)"
          using n(1) w1 w2 m by simp
        have aw: "awaited w' = awaited w + (2 * Suc n - 1)"
          using n(5) w1 w2 m by simp
        have lg: "lag w' = lag w" using n(3) w1 w2 by simp
        have bd: "attempt + Suc n \<le> max attempt (maxRetries s)" using n(2) True by simp
        from n(6) m have res: "r = Inr \<lparr> success = True, message = ''Email sent successfully.'' \<rparr> \<and> 0 < Suc n \<and> s' = s
        \<or> r = Inr \<lparr> success = False, message = ''All attempts failed.'' \<rparr> \<and>
          maxRetries s \<le> attempt + Suc n \<and>
          s' = (if Suc n = 0 then s
                else s\<lparr> currentProviderIndex :=
                         (currentProviderIndex s + 1) mod length (providers s) \<rparr>)
        \<or> r = Inl (TypeError MessageOfNullish) \<and> 0 < Suc n \<and> s' = s"
          by auto
        from tr bd lg clk aw res show ?thesis by blast
      next
        case False
        from run trySendLoop_exhausted[OF lt False inrange cp failed] w1 lt False show ?thesis
          by (intro exI[of _ 1]) auto
      qed
      qed
    qed
  qed
qed

lemma length_backoffTrace: "length (backoffTrace j d a n) = 2 * n - 1"
  by (induction j d a n rule: backoffTrace.induct) auto

lemma backoffTrace_inj: "backoffTrace j d a n = backoffTrace j d a m \<Longrightarrow> n = m"
proof -
  assume "backoffTrace j d a n = backoffTrace j d a m"
  then have "length (backoffTrace j d a n) = length (backoffTrace j d a m)" by simp
  then show ?thesis unfolding length_backoffTrace by arith
qed

lemma trySendLoop_replies:
  "currentProviderIndex s < length (providers s) \<Longrightarrow>
   trySendLoop a emailId d s w = (r, s', w') \<Longrightarrow>
   trace w' = trace w @ backoffTrace (currentProviderIndex s) d a n \<Longrightarrow>
   (\<forall>k. Suc k < n \<longrightarrow> failedAt s w d k) \<and>
   (0 < n \<longrightarrow> failedAt s w d (n - 1) = (r = Inr \<lparr> success = False, message = ''All attempts failed.'' \<rparr>))"
proof (induction a emailId d s w arbitrary: r s' w' n rule: trySendLoop.induct)
  case (1 attempt emailId emailDetails s w)
  note run = "1.prems"(2) and inrange = "1.prems"(1) and tr = "1.prems"(3)
  show ?case
  proof (cases "attempt < maxRetries s")
    case False
    with run tr have "backoffTrace (currentProviderIndex s) emailDetails attempt n
        = backoffTrace (currentProviderIndex s) emailDetails attempt 0"
      by (auto simp: trySendLoop_done)
    then have "n = 0" by (rule backoffTrace_inj)
    then show ?thesis by simp
  next
    case lt: True
    obtain response w1 where cp: "callProvider (providers s ! currentProviderIndex s) (currentProviderIndex s) emailDetails w = (response, w1)"
      by (cases "callProvider (providers s ! currentProviderIndex s) (currentProviderIndex s) emailDetails w")
    note w1 = callProvider_world[OF cp]
    have f0: "failedAt s w emailDetails 0 = (\<exists>m. caught response = Some (Value m))"
      using w1 by (auto simp: failedAt_def split: option.splits thrown.splits)
    show ?thesis
    proof (cases "caught response")
      case None
      from run trySendLoop_sent[OF lt inrange cp None] w1 tr
      have bt: "backoffTrace (currentProviderIndex s) emailDetails attempt n
           = backoffTrace (currentProviderIndex s) emailDetails attempt 1"
        and r: "r = Inr \<lparr> success = True, message = ''Email sent successfully.'' \<rparr>"
        by auto
      from bt have "n = 1" by (rule backoffTrace_inj)
      with f0 None r show ?thesis by simp
    next
      case (Some e)
      show ?thesis
      proof (cases e)
        case Nullish
        with Some have null: "caught response = Some Nullish" by simp
        from run trySendLoop_nullish[OF lt inrange cp null] w1 tr
        have bt: "backoffTrace (currentProviderIndex s) emailDetails attempt n
             = backoffTrace (currentProviderIndex s) emailDetails attempt 1"
          and r: "r = Inl (TypeError MessageOfNullish)"
          by auto
        from bt have "n = 1" by (rule backoffTrace_inj)
        with f0 null r show ?thesis by simp
      next
      case (Value err)
      with Some have failed: "caught response = Some (Value err)" by simp
      show ?thesis
      proof (cases "Suc attempt < maxRetries s")
        case True
        let ?w2 = "sleep (2 ^ Suc attempt * 100) w1"
        note w2 = sleep_world[of "2 ^ Suc attempt * 100" w1]
        have eq: "trySendLoop (Suc attempt) emailId emailDetails s ?w2 = (r, s', w')"
          using run trySendLoop_retry[OF True inrange cp failed] by simp
        from trySendLoop_shape[OF inrange eq]
        obtain m where m: "trace w' = trace ?w2 @ backoffTrace (currentProviderIndex s) emailDetails (Suc attempt) m"
          and mpos: "0 < m"
          using True by auto
        obtain n' where m': "m = Suc n'" using mpos by (cases m) auto
        have "backoffTrace (currentProviderIndex s) emailDetails attempt n =
            backoffTrace (currentProviderIndex s) emailDetails attempt (Suc m)"
          using tr w1 w2 m m' by simp
        then have "n = Suc m" by (rule backoffTrace_inj)
        then have n': "n = Suc (Suc n')" using m' by simp
        have tr2: "trace w' = trace ?w2 @ backoffTrace (currentProviderIndex s) emailDetails (Suc attempt) (Suc n')"
          using m m' by simp
        note ih = "1.IH"(1)[OF lt inrange cp[symmetric] Some Value True inrange eq tr2]
        have shift: "failedAt s ?w2 emailDetails k = failedAt s w emailDetails (Suc k)" for k
          using w1 w2 by (simp add: failedAt_def)
        have a: "\<forall>k. Suc k < n \<longrightarrow> failedAt s w emailDetails k"
        proof (intro allI impI)
          fix k assume k: "Suc k < n"
          show "failedAt s w emailDetails k"
          proof (cases k)
            case 0
            then show ?thesis using f0 failed by simp
          next
            case (Suc k')
            then have "Suc k' < Suc n'" using k n'(1) by simp
            with ih shift[of k'] Suc show ?thesis by simp
          qed
        qed
        have b: "failedAt s w emailDetails (n - 1) = (r = Inr \<lparr> success = False, message = ''All attempts failed.'' \<rparr>)"
          using ih shift[of n'] n'(1) by simp
        from a b show ?thesis by simp
      next
        case False
        from run trySendLoop_exhausted[OF lt False inrange cp failed] w1 tr
        have bt: "backoffTrace (currentProviderIndex s) emailDetails attempt n
             = backoffTrace (currentProviderIndex s) emailDetails attempt 1"
          and r: "r = Inr \<lparr> success = False, message = ''All attempts failed.'' \<rparr>"
          by auto
        from bt have "n = 1" by (rule backoffTrace_inj)
        with f0 failed r show ?thesis by simp
      qed
      qed
    qed
  qed
qed

section \<open>Facts about logs\<close>

lemma calls_append: "calls (xs @ ys) = calls xs @ calls ys"
  by (induction xs rule: calls.induct) auto

lemma pushedAt_append: "pushedAt (xs @ ys) = pushedAt xs @ pushedAt ys"
  by (induction xs rule: pushedAt.induct) auto

lemma statusIds_append: "statusIds (xs @ ys) = statusIds xs @ statusIds ys"
  by (induction xs rule: statusIds.induct) auto

lemma succeeded_append: "succeeded (xs @ ys) = succeeded xs \<union> succeeded ys"
  by (induction xs rule: succeeded.induct) auto

lemma since_append: "trace w' = trace w @ evs \<Longrightarrow> since w w' = evs"
  by (simp add: since_def)

lemma calls_backoffTrace: "calls (backoffTrace j d a n) = replicate n (j, d)"
  by (induction j d a n rule: backoffTrace.induct) auto

lemma pushedAt_backoffTrace: "pushedAt (backoffTrace j d a n) = []"
  by (induction j d a n rule: backoffTrace.induct) auto

lemma statusIds_backoffTrace: "statusIds (backoffTrace j d a n) = []"
  by (induction j d a n rule: backoffTrace.induct) auto




text \<open>What the retry loop does wherever the cursor points.\<close>

lemma trySendLoop_frame:
  assumes "trySendLoop a emailId d s w = (r, s', w')"
  shows "\<exists>n. trace w' = trace w @ backoffTrace (currentProviderIndex s) d a n \<and>
             a + n \<le> max a (maxRetries s)"
    and "s' = s\<lparr> currentProviderIndex := currentProviderIndex s' \<rparr>"
    and "lag w' = lag w" and "clock w \<le> clock w'"
proof -
  have "(\<exists>n. trace w' = trace w @ backoffTrace (currentProviderIndex s) d a n \<and>
             a + n \<le> max a (maxRetries s)) \<and>
        s' = s\<lparr> currentProviderIndex := currentProviderIndex s' \<rparr> \<and>
        lag w' = lag w \<and> clock w \<le> clock w'"
  proof (cases "currentProviderIndex s < length (providers s)")
    case True
    from trySendLoop_shape[OF True assms] obtain n where
      n: "trace w' = trace w @ backoffTrace (currentProviderIndex s) d a n"
         "a + n \<le> max a (maxRetries s)" "lag w' = lag w" "clock w \<le> clock w'"
         "s' = s \<or> s' = s\<lparr> currentProviderIndex :=
                         (currentProviderIndex s + 1) mod length (providers s) \<rparr>"
      by (auto split: if_splits)
    from n(5) have "s' = s\<lparr> currentProviderIndex := currentProviderIndex s' \<rparr>" by auto
    with n(1-4) show ?thesis by blast
  next
    case False
    have "r = r \<and> s' = s \<and> w' = w"
    proof (cases "a < maxRetries s")
      case True
      with assms trySendLoop_undefined[OF True False] show ?thesis by simp
    next
      case False
      with assms trySendLoop_done[OF False] show ?thesis by simp
    qed
    then have "trace w' = trace w @ backoffTrace (currentProviderIndex s) d a 0" "s' = s" "w' = w"
      by auto
    then show ?thesis by (intro conjI exI[of _ 0]) auto
  qed
  then show "\<exists>n. trace w' = trace w @ backoffTrace (currentProviderIndex s) d a n \<and>
             a + n \<le> max a (maxRetries s)"
    and "s' = s\<lparr> currentProviderIndex := currentProviderIndex s' \<rparr>"
    and "lag w' = lag w" and "clock w \<le> clock w'"
    by blast+
qed

section \<open>Retry bound\<close>

text \<open>
  A call of \<open>trySendWithRetries\<close> that no other call interrupts: it calls a provider
  at most \<open>maxRetries\<close> times, and every one of those calls goes to the provider at
  the index that was current when the processing began, with the payload of the message.
\<close>

theorem retry_bound_one_provider:
  "trySendWithRetries emailId d s w = (r, s', w') \<Longrightarrow>
   \<exists>n. n \<le> maxRetries s \<and>
       calls (since w w') = replicate n (currentProviderIndex s, d)"
proof -
  assume run: "trySendWithRetries emailId d s w = (r, s', w')"
  then have "trySendLoop 0 emailId d s w = (r, s', w')"
    by (simp add: trySendWithRetries_def)
  from trySendLoop_frame(1)[OF this] obtain n where
    n: "trace w' = trace w @ backoffTrace (currentProviderIndex s) d 0 n" "n \<le> maxRetries s"
    by auto
  from since_append[OF n(1)] have "calls (since w w') = replicate n (currentProviderIndex s, d)"
    by (simp add: calls_backoffTrace)
  with n(2) show ?thesis by blast
qed

lemma fixture_throws_twice:
  "trySendWithRetries ''m1'' () (new_EmailService [alwaysThrows ''P1'', alwaysDelivers ''P2''] 2 5) world0
   = (Inr \<lparr> success = False, message = ''All attempts failed.'' \<rparr>,
      (new_EmailService [alwaysThrows ''P1'', alwaysDelivers ''P2''] 2 5)\<lparr> currentProviderIndex := 1 \<rparr>,
      \<lparr> clock = 200, awaited = 3, lag = (\<lambda>k. 0),
        trace = [ProviderCall 0 (), Slept 200, ProviderCall 0 ()] \<rparr>)"
  by (simp add: trySendWithRetries_def trySendLoop.simps new_EmailService_def alwaysThrows_def
      alwaysDelivers_def world0_def callProvider_def caught_def sleep_def timerDelay_def switchProvider_def)

theorem retry_bound_one_provider_witness:
  "\<exists>n. n \<le> 2 \<and>
     calls [ProviderCall 0 (), Slept 200, ProviderCall 0 ()] = replicate n (0, ())"
  using retry_bound_one_provider[OF fixture_throws_twice]
  by (simp add: since_def world0_def new_EmailService_def)


lemma trySendWithRetries_shape:
  assumes ok: "cursorOk s" and run: "trySendWithRetries emailId d s w = (r, s', w')"
  obtains n where "since w w' = backoffTrace (currentProviderIndex s) d 0 n"
    and "n \<le> maxRetries s"
    and "\<forall>k. Suc k < n \<longrightarrow> failedAt s w d k"
    and "r = Inr \<lparr> success = True, message = ''Email sent successfully.'' \<rparr> \<and> 0 < n \<and>
           s' = s \<and> \<not> failedAt s w d (n - 1)
         \<or> r = Inr \<lparr> success = False, message = ''All attempts failed.'' \<rparr> \<and>
           n = maxRetries s \<and> (0 < n \<longrightarrow> failedAt s w d (n - 1)) \<and>
           s' = (if n = 0 then s
                 else s\<lparr> currentProviderIndex :=
                          (currentProviderIndex s + 1) mod length (providers s) \<rparr>)
         \<or> r = Inl (TypeError MessageOfNullish) \<and> 0 < n \<and> s' = s \<and>
           \<not> failedAt s w d (n - 1)"
proof -
  from ok have inrange: "currentProviderIndex s < length (providers s)"
    by (simp add: cursorOk_def)
  from run have loop: "trySendLoop 0 emailId d s w = (r, s', w')"
    by (simp add: trySendWithRetries_def)
  from trySendLoop_shape[OF inrange loop] obtain n where
    tr: "trace w' = trace w @ backoffTrace (currentProviderIndex s) d 0 n"
    and le: "n \<le> maxRetries s"
    and res: "r = Inr \<lparr> success = True, message = ''Email sent successfully.'' \<rparr> \<and> 0 < n \<and> s' = s
        \<or> r = Inr \<lparr> success = False, message = ''All attempts failed.'' \<rparr> \<and>
          maxRetries s \<le> n \<and>
          s' = (if n = 0 then s
                else s\<lparr> currentProviderIndex :=
                         (currentProviderIndex s + 1) mod length (providers s) \<rparr>)
        \<or> r = Inl (TypeError MessageOfNullish) \<and> 0 < n \<and> s' = s"
    by auto
  note rep = trySendLoop_replies[OF inrange loop tr]
  have 1: "since w w' = backoffTrace (currentProviderIndex s) d 0 n"
    using tr by (rule since_append)
  have 3: "\<forall>k. Suc k < n \<longrightarrow> failedAt s w d k" using rep by blast
  have 4: "r = Inr \<lparr> success = True, message = ''Email sent successfully.'' \<rparr> \<and> 0 < n \<and>
           s' = s \<and> \<not> failedAt s w d (n - 1)
         \<or> r = Inr \<lparr> success = False, message = ''All attempts failed.'' \<rparr> \<and>
           n = maxRetries s \<and> (0 < n \<longrightarrow> failedAt s w d (n - 1)) \<and>
           s' = (if n = 0 then s
                 else s\<lparr> currentProviderIndex :=
                          (currentProviderIndex s + 1) mod length (providers s) \<rparr>)
         \<or> r = Inl (TypeError MessageOfNullish) \<and> 0 < n \<and> s' = s \<and>
           \<not> failedAt s w d (n - 1)"
    using res le rep by auto
  from 1 le 3 4 show thesis by (rule that)
qed

section \<open>Failover after exhaustion\<close>

text \<open>
  A call of \<open>trySendWithRetries\<close> that no other call interrupts, with at least one
  attempt allowed and the cursor at an index \<open>j\<close> of the list:
  the processing of a message resolves as the failure \<open>All attempts failed.\<close> exactly
  when the provider at \<open>j\<close> fails all \<open>maxRetries\<close> attempts. Then all \<open>maxRetries\<close>
  calls went to \<open>j\<close>, the cursor is the only field that changed and it is
  \<open>(j + 1) mod N\<close>, and the processing of any later message that finds this cursor
  makes its first call, and all its calls, to the provider at \<open>(j + 1) mod N\<close>. When the
  message does not resolve as that failure, the state is unchanged.
\<close>

theorem failover_after_exhaustion:
  "cursorOk s \<Longrightarrow> 0 < maxRetries s \<Longrightarrow>
   trySendWithRetries emailId d s w = (r, s', w') \<Longrightarrow>
   ((\<forall>k<maxRetries s. failedAt s w d k) \<longleftrightarrow>
      r = Inr \<lparr> success = False, message = ''All attempts failed.'' \<rparr>) \<and>
   (r = Inr \<lparr> success = False, message = ''All attempts failed.'' \<rparr> \<longrightarrow>
      calls (since w w') = replicate (maxRetries s) (currentProviderIndex s, d) \<and>
      s' = s\<lparr> currentProviderIndex :=
                (currentProviderIndex s + 1) mod length (providers s) \<rparr> \<and>
      (\<forall>emailId2 d2 t v r2 t' v'.
          providers t = providers s' \<and> maxRetries t = maxRetries s' \<and>
          currentProviderIndex t = currentProviderIndex s' \<and>
          trySendWithRetries emailId2 d2 t v = (r2, t', v') \<longrightarrow>
          (\<exists>n. 0 < n \<and> calls (since v v') =
                 replicate n ((currentProviderIndex s + 1) mod length (providers s), d2)))) \<and>
   (r \<noteq> Inr \<lparr> success = False, message = ''All attempts failed.'' \<rparr> \<longrightarrow> s' = s)"
proof -
  assume ok: "cursorOk s" and pos: "0 < maxRetries s"
    and run: "trySendWithRetries emailId d s w = (r, s', w')"
  let ?fail = "Inr \<lparr> success = False, message = ''All attempts failed.'' \<rparr> :: error + result"
  let ?j' = "(currentProviderIndex s + 1) mod length (providers s)"
  from ok have nonempty: "0 < length (providers s)" by (auto simp: cursorOk_def)
  from ok run obtain n where
    ev: "since w w' = backoffTrace (currentProviderIndex s) d 0 n"
    and le: "n \<le> maxRetries s"
    and early: "\<forall>k. Suc k < n \<longrightarrow> failedAt s w d k"
    and res: "r = Inr \<lparr> success = True, message = ''Email sent successfully.'' \<rparr> \<and> 0 < n \<and>
           s' = s \<and> \<not> failedAt s w d (n - 1)
         \<or> r = ?fail \<and>
           n = maxRetries s \<and> (0 < n \<longrightarrow> failedAt s w d (n - 1)) \<and>
           s' = (if n = 0 then s else s\<lparr> currentProviderIndex := ?j' \<rparr>)
         \<or> r = Inl (TypeError MessageOfNullish) \<and> 0 < n \<and> s' = s \<and>
           \<not> failedAt s w d (n - 1)"
    by (rule trySendWithRetries_shape)
  have iff: "(\<forall>k<maxRetries s. failedAt s w d k) \<longleftrightarrow> r = ?fail"
  proof
    assume all: "\<forall>k<maxRetries s. failedAt s w d k"
    show "r = ?fail"
    proof (rule ccontr)
      assume "r \<noteq> ?fail"
      with res have "0 < n" "\<not> failedAt s w d (n - 1)" by auto
      moreover from \<open>0 < n\<close> le have "n - 1 < maxRetries s" by simp
      ultimately show False using all by blast
    qed
  next
    assume f: "r = ?fail"
    with res have n: "n = maxRetries s" "failedAt s w d (n - 1)" using pos by auto
    show "\<forall>k<maxRetries s. failedAt s w d k"
    proof (intro allI impI)
      fix k assume "k < maxRetries s"
      then have "Suc k < n \<or> k = n - 1" using n(1) by auto
      with early n(2) show "failedAt s w d k" by auto
    qed
  qed
  have exhausted: "calls (since w w') = replicate (maxRetries s) (currentProviderIndex s, d) \<and>
      s' = s\<lparr> currentProviderIndex := ?j' \<rparr> \<and>
      (\<forall>emailId2 d2 t v r2 t' v'.
          providers t = providers s' \<and> maxRetries t = maxRetries s' \<and>
          currentProviderIndex t = currentProviderIndex s' \<and>
          trySendWithRetries emailId2 d2 t v = (r2, t', v') \<longrightarrow>
          (\<exists>n. 0 < n \<and> calls (since v v') = replicate n (?j', d2)))" if f: "r = ?fail"
  proof -
    from f res pos have n: "n = maxRetries s" and s': "s' = s\<lparr> currentProviderIndex := ?j' \<rparr>"
      by auto
    have c: "calls (since w w') = replicate (maxRetries s) (currentProviderIndex s, d)"
      using ev n by (simp add: calls_backoffTrace)
    have nxt: "\<exists>n. 0 < n \<and> calls (since v v') = replicate n (?j', d2)"
      if t: "providers t = providers s'" "maxRetries t = maxRetries s'"
        "currentProviderIndex t = currentProviderIndex s'"
        "trySendWithRetries emailId2 d2 t v = (r2, t', v')"
      for emailId2 d2 t v r2 t' v'
    proof -
      have okt: "cursorOk t" using t(1,3) s' nonempty by (simp add: cursorOk_def)
      from okt t(4) obtain m where
        m: "since v v' = backoffTrace (currentProviderIndex t) d2 0 m"
        "r2 = Inr \<lparr> success = True, message = ''Email sent successfully.'' \<rparr> \<and> 0 < m \<and>
           t' = t \<and> \<not> failedAt t v d2 (m - 1)
         \<or> r2 = ?fail \<and> m = maxRetries t \<and> (0 < m \<longrightarrow> failedAt t v d2 (m - 1)) \<and>
           t' = (if m = 0 then t
                 else t\<lparr> currentProviderIndex :=
                          (currentProviderIndex t + 1) mod length (providers t) \<rparr>)
         \<or> r2 = Inl (TypeError MessageOfNullish) \<and> 0 < m \<and> t' = t \<and>
           \<not> failedAt t v d2 (m - 1)"
        by (rule trySendWithRetries_shape)
      from m(2) t(2) s' pos have "0 < m" by auto
      moreover have "calls (since v v') = replicate m (?j', d2)"
        using m(1) t(3) s' by (simp add: calls_backoffTrace)
      ultimately show ?thesis by blast
    qed
    from c s' nxt show ?thesis by blast
  qed
  have other: "s' = s" if "r \<noteq> ?fail"
    using that res by auto
  from iff exhausted other show ?thesis by blast
qed


theorem failover_after_exhaustion_witness:
  "cursorOk (new_EmailService [alwaysThrows ''P1'', alwaysDelivers ''P2''] 2 5) \<and>
   failedAt (new_EmailService [alwaysThrows ''P1'', alwaysDelivers ''P2''] 2 5) world0 () 0 \<and>
   failedAt (new_EmailService [alwaysThrows ''P1'', alwaysDelivers ''P2''] 2 5) world0 () 1 \<and>
   fst (trySendWithRetries ''m1'' ()
          (new_EmailService [alwaysThrows ''P1'', alwaysDelivers ''P2''] 2 5) world0)
     = Inr \<lparr> success = False, message = ''All attempts failed.'' \<rparr> \<and>
   currentProviderIndex (fst (snd (trySendWithRetries ''m1'' ()
          (new_EmailService [alwaysThrows ''P1'', alwaysDelivers ''P2''] 2 5) world0))) = 1"
proof -
  have ok: "cursorOk (new_EmailService [alwaysThrows ''P1'', alwaysDelivers ''P2''] 2 5)"
    by (simp add: cursorOk_def new_EmailService_def)
  have pos: "0 < maxRetries (new_EmailService [alwaysThrows ''P1'', alwaysDelivers ''P2''] 2 5)"
    by (simp add: new_EmailService_def)
  have mr: "maxRetries (new_EmailService [alwaysThrows ''P1'', alwaysDelivers ''P2''] 2 5) = 2"
    by (simp add: new_EmailService_def)
  have c: "currentProviderIndex (fst (snd (trySendWithRetries ''m1'' ()
          (new_EmailService [alwaysThrows ''P1'', alwaysDelivers ''P2''] 2 5) world0))) = 1"
    using fixture_throws_twice by simp
  have r: "fst (trySendWithRetries ''m1'' ()
          (new_EmailService [alwaysThrows ''P1'', alwaysDelivers ''P2''] 2 5) world0)
     = Inr \<lparr> success = False, message = ''All attempts failed.'' \<rparr>"
    using fixture_throws_twice by simp
  from failover_after_exhaustion[OF ok pos fixture_throws_twice]
  have "\<forall>k<2. failedAt (new_EmailService [alwaysThrows ''P1'', alwaysDelivers ''P2''] 2 5) world0 () k"
    unfolding mr by blast
  then have "failedAt (new_EmailService [alwaysThrows ''P1'', alwaysDelivers ''P2''] 2 5) world0 () 0"
    and "failedAt (new_EmailService [alwaysThrows ''P1'', alwaysDelivers ''P2''] 2 5) world0 () 1"
    by simp_all
  with ok c r show ?thesis by blast
qed

section \<open>Exponential backoff\<close>



section \<open>One iteration of the drain loop\<close>

lemma drainStep_unfold:
  "drainStep s w =
     (if rateLimit s \<le> length (recent s w)
      then (Inr (), s\<lparr> lastSentTimestamps := recent s w \<rparr>, sleep 1000 w)
      else (case emailQueue s of
              [] \<Rightarrow> (Inl (TypeError DestructureUndefined), s\<lparr> lastSentTimestamps := recent s w \<rparr>, w)
            | (emailId, emailDetails) # rest \<Rightarrow>
                (case trySendWithRetries emailId emailDetails
                        (s\<lparr> lastSentTimestamps := recent s w, emailQueue := rest \<rparr>) w of
                   (Inl e, s3, w3) \<Rightarrow> (Inl e, s3, w3)
                 | (Inr st, s3, w3) \<Rightarrow>
                     (if success st then
                        (Inr (),
                         s3\<lparr> sentEmails := insert emailId (sentEmails s3),
                             lastSentTimestamps := lastSentTimestamps s3 @ [Date_now w3],
                             status := (status s3)(emailId \<mapsto> st) \<rparr>,
                         w3\<lparr> trace := trace w3 @ [TimestampPushed (Date_now w3), StatusSet emailId st] \<rparr>)
                      else
                        (Inr (),
                         s3\<lparr> status := (status s3)(emailId \<mapsto> st) \<rparr>,
                         w3\<lparr> trace := trace w3 @ [StatusSet emailId st] \<rparr>)))))"
  unfolding drainStep_def recent_def Let_def by simp

lemma drainStep_cases [consumes 1, case_names limited empty thrown sent failed]:
  assumes "drainStep s w = (r, s', w')"
  obtains
    "rateLimit s \<le> length (recent s w)" "r = Inr ()"
      "s' = s\<lparr> lastSentTimestamps := recent s w \<rparr>" "w' = sleep 1000 w"
  | "length (recent s w) < rateLimit s" "emailQueue s = []" "r = Inl (TypeError DestructureUndefined)"
      "s' = s\<lparr> lastSentTimestamps := recent s w \<rparr>" "w' = w"
  | emailId emailDetails rest e where
      "length (recent s w) < rateLimit s" "emailQueue s = (emailId, emailDetails) # rest"
      "trySendWithRetries emailId emailDetails
         (s\<lparr> lastSentTimestamps := recent s w, emailQueue := rest \<rparr>) w = (Inl e, s', w')"
      "r = Inl e"
  | emailId emailDetails rest st s3 w3 where
      "length (recent s w) < rateLimit s" "emailQueue s = (emailId, emailDetails) # rest"
      "trySendWithRetries emailId emailDetails
         (s\<lparr> lastSentTimestamps := recent s w, emailQueue := rest \<rparr>) w = (Inr st, s3, w3)"
      "success st" "r = Inr ()"
      "s' = s3\<lparr> sentEmails := insert emailId (sentEmails s3),
                lastSentTimestamps := lastSentTimestamps s3 @ [Date_now w3],
                status := (status s3)(emailId \<mapsto> st) \<rparr>"
      "w' = w3\<lparr> trace := trace w3 @ [TimestampPushed (Date_now w3), StatusSet emailId st] \<rparr>"
  | emailId emailDetails rest st s3 w3 where
      "length (recent s w) < rateLimit s" "emailQueue s = (emailId, emailDetails) # rest"
      "trySendWithRetries emailId emailDetails
         (s\<lparr> lastSentTimestamps := recent s w, emailQueue := rest \<rparr>) w = (Inr st, s3, w3)"
      "\<not> success st" "r = Inr ()"
      "s' = s3\<lparr> status := (status s3)(emailId \<mapsto> st) \<rparr>"
      "w' = w3\<lparr> trace := trace w3 @ [StatusSet emailId st] \<rparr>"
proof (cases "rateLimit s \<le> length (recent s w)")
  case True
  from assms True have "r = Inr ()" "s' = s\<lparr> lastSentTimestamps := recent s w \<rparr>"
    "w' = sleep 1000 w"
    unfolding drainStep_unfold by auto
  with True show ?thesis by (rule that(1))
next
  case False
  then have nl: "length (recent s w) < rateLimit s" by simp
  show ?thesis
  proof (cases "emailQueue s")
    case Nil
    from assms False Nil have "r = Inl (TypeError DestructureUndefined)" "s' = s\<lparr> lastSentTimestamps := recent s w \<rparr>"
      "w' = w"
      unfolding drainStep_unfold by auto
    with nl Nil show ?thesis by (rule that(2))
  next
    case (Cons m rest)
    obtain emailId emailDetails where m: "m = (emailId, emailDetails)" by (cases m)
    obtain r3 s3 w3 where t: "trySendWithRetries emailId emailDetails
         (s\<lparr> lastSentTimestamps := recent s w, emailQueue := rest \<rparr>) w = (r3, s3, w3)"
      by (metis prod_cases3)
    have q: "emailQueue s = (emailId, emailDetails) # rest" using Cons m by simp
    show ?thesis
    proof (cases r3)
      case (Inl e)
      from assms False q t Inl have "r = Inl e" "s' = s3" "w' = w3"
        unfolding drainStep_unfold by auto
      with nl q t Inl show ?thesis by (intro that(3)[of emailId emailDetails rest e]) simp_all
    next
      case (Inr st)
      show ?thesis
      proof (cases "success st")
        case True
        from assms False q t Inr True have "r = Inr ()"
          "s' = s3\<lparr> sentEmails := insert emailId (sentEmails s3),
                lastSentTimestamps := lastSentTimestamps s3 @ [Date_now w3],
                status := (status s3)(emailId \<mapsto> st) \<rparr>"
          "w' = w3\<lparr> trace := trace w3 @ [TimestampPushed (Date_now w3), StatusSet emailId st] \<rparr>"
          unfolding drainStep_unfold by auto
        with nl q t Inr True show ?thesis
          by (intro that(4)[of emailId emailDetails rest st s3 w3]) simp_all
      next
        case f: False
        from assms False q t Inr f have "r = Inr ()"
          "s' = s3\<lparr> status := (status s3)(emailId \<mapsto> st) \<rparr>"
          "w' = w3\<lparr> trace := trace w3 @ [StatusSet emailId st] \<rparr>"
          unfolding drainStep_unfold by auto
        with nl q t Inr f show ?thesis
          by (intro that(5)[of emailId emailDetails rest st s3 w3]) simp_all
      qed
    qed
  qed
qed

lemma fixture_first_send:
  "sendEmail emailId () (new_EmailService [alwaysDelivers ''P1''] 3 5) world0 =
     Some (Inr Undefined,
       \<lparr> providers = [alwaysDelivers ''P1''], currentProviderIndex = 0, maxRetries = 3, rateLimit = 5,
         status = [emailId \<mapsto> \<lparr> success = True, message = ''Email sent successfully.'' \<rparr>],
         sentEmails = {emailId}, emailQueue = [], lastSentTimestamps = [0] \<rparr>,
       \<lparr> clock = 0, awaited = 1, lag = (\<lambda>k. 0),
         trace = [ProviderCall 0 (), TimestampPushed 0,
                  StatusSet emailId \<lparr> success = True, message = ''Email sent successfully.'' \<rparr>] \<rparr>)"
  by (simp add: sendEmail_def processQueue.simps drainStep_def Date_now_def
      trySendWithRetries_def trySendLoop.simps new_EmailService_def
      alwaysDelivers_def world0_def callProvider_def caught_def)

text \<open>
  An iteration hands the cursor on as the processing of its message left it: the next
  iteration, and so the next message, starts with the cursor that
  \<open>trySendWithRetries\<close> returned.
\<close>

lemma drainStep_hands_cursor_on:
  assumes "drainStep s w = (r, s', w')"
  shows "currentProviderIndex s' =
     (if rateLimit s \<le> length (recent s w) then currentProviderIndex s
      else case emailQueue s of
             [] \<Rightarrow> currentProviderIndex s
           | (emailId, emailDetails) # rest \<Rightarrow>
               currentProviderIndex (fst (snd (trySendWithRetries emailId emailDetails
                 (s\<lparr> lastSentTimestamps := recent s w, emailQueue := rest \<rparr>) w))))"
  using assms
proof (cases rule: drainStep_cases)
  case limited
  then show ?thesis by simp
next
  case empty
  then show ?thesis by simp
next
  case (thrown emailId emailDetails rest e)
  then show ?thesis by simp
next
  case (sent emailId emailDetails rest st s3 w3)
  then show ?thesis by simp
next
  case (failed emailId emailDetails rest st s3 w3)
  then show ?thesis by simp
qed

section \<open>Idempotency\<close>

text \<open>
  C1. A \<open>sendEmail\<close> for an id that is in \<open>sentEmails\<close> returns the duplicate-prevented
  result at once: the service (queue, status table, \<open>sentEmails\<close>, ledger, cursor) and
  the world (clock, log of provider calls and waits) are exactly what they were.
\<close>

theorem duplicate_prevented:
  "emailId \<in> sentEmails s \<Longrightarrow>
   sendEmail emailId emailDetails s w =
     Some (Inr (Obj \<lparr> success = True, message = ''Duplicate email prevented.'' \<rparr>), s, w)"
  by (simp add: sendEmail_def)

theorem duplicate_prevented_witness:
  "sendEmail ''dup'' ()
     \<lparr> providers = [alwaysDelivers ''P1''], currentProviderIndex = 0, maxRetries = 3, rateLimit = 5,
       status = [''dup'' \<mapsto> \<lparr> success = True, message = ''Email sent successfully.'' \<rparr>],
       sentEmails = {''dup''}, emailQueue = [], lastSentTimestamps = [0] \<rparr>
     \<lparr> clock = 0, awaited = 1, lag = (\<lambda>k. 0),
       trace = [ProviderCall 0 (), TimestampPushed 0,
                StatusSet ''dup'' \<lparr> success = True, message = ''Email sent successfully.'' \<rparr>] \<rparr>
   = Some (Inr (Obj \<lparr> success = True, message = ''Duplicate email prevented.'' \<rparr>),
     \<lparr> providers = [alwaysDelivers ''P1''], currentProviderIndex = 0, maxRetries = 3, rateLimit = 5,
       status = [''dup'' \<mapsto> \<lparr> success = True, message = ''Email sent successfully.'' \<rparr>],
       sentEmails = {''dup''}, emailQueue = [], lastSentTimestamps = [0] \<rparr>,
     \<lparr> clock = 0, awaited = 1, lag = (\<lambda>k. 0),
       trace = [ProviderCall 0 (), TimestampPushed 0,
                StatusSet ''dup'' \<lparr> success = True, message = ''Email sent successfully.'' \<rparr>] \<rparr>)"
  by (rule duplicate_prevented) simp

section \<open>What \<open>sendEmail\<close> returns\<close>

text \<open>
  C6. A first \<open>sendEmail\<close> through a provider that delivers drains the queue and
  records the success in the status table, and resolves to \<open>undefined\<close>, not to an
  object with \<open>success\<close> and \<open>message\<close>.
\<close>

theorem sendEmail_resolves_to_undefined:
  "\<exists>s' w'. sendEmail ''m1'' () (new_EmailService [alwaysDelivers ''P1''] 3 5) world0
             = Some (Inr Undefined, s', w') \<and>
           emailQueue s' = [] \<and>
           status s' ''m1'' = Some \<lparr> success = True, message = ''Email sent successfully.'' \<rparr>"
  unfolding fixture_first_send by simp

section \<open>What overlapping calls keep\<close>

text \<open>The equations that run a schedule on a given service.\<close>

lemmas stepping = call_def resume_def park_def enrol_def boot_def loopFrom_def attemptFrom_def
  afterReply_def afterStatus_def startTimer_def timerDelay_def Date_now_def caught_def
  switchProvider_def new_EmailService_def world0_def

text \<open>
  Whatever the calls in flight and the order in which they take their turns, every turn
  leaves the provider list as it is, the cursor inside it, every id in \<open>sentEmails\<close>,
  and \<open>sentEmails\<close> equal to the set of ids with a successful status in the log.
\<close>

lemma attemptFrom_keeps:
  assumes "attemptFrom a emailId d s w = (task, s', w')"
  shows "s' = s" and "succeeded (trace w') = succeeded (trace w)"
  using assms by (auto simp: attemptFrom_def succeeded_append split: if_splits)

lemma afterReply_keeps:
  assumes "afterReply emailId d a response s w = (task, s', w')"
  shows "sentEmails s' = sentEmails s" and "succeeded (trace w') = succeeded (trace w)"
    and "providers s' = providers s" and "cursorOk s \<Longrightarrow> cursorOk s'"
  using assms
  by (auto simp: afterReply_def attemptFrom_def startTimer_def switchProvider_def cursorOk_def
      succeeded_append split: option.splits thrown.splits if_splits sum.splits)

lemma loopFrom_keeps:
  assumes "loopFrom s w = (task, s', w')"
  shows "sentEmails s' = sentEmails s" and "succeeded (trace w') = succeeded (trace w)"
    and "providers s' = providers s" and "currentProviderIndex s' = currentProviderIndex s"
  using assms
  by (auto simp: loopFrom_def Let_def attemptFrom_def startTimer_def succeeded_append
      split: if_splits list.splits)

lemma afterStatus_keeps:
  assumes "afterStatus emailId outcome s w = (task, s', w')"
  shows "sentEmails s \<subseteq> sentEmails s'"
    and "sentEmails s = succeeded (trace w) \<Longrightarrow> sentEmails s' = succeeded (trace w')"
    and "providers s' = providers s" and "currentProviderIndex s' = currentProviderIndex s"
proof -
  consider (raised) e where "outcome = Inl e" "s' = s" "w' = w"
    | (sent) st where "outcome = Inr st" "success st"
        "loopFrom (s\<lparr> sentEmails := insert emailId (sentEmails s),
                      lastSentTimestamps := lastSentTimestamps s @ [Date_now w],
                      status := (status s)(emailId \<mapsto> st) \<rparr>)
                  (w\<lparr> trace := trace w @ [TimestampPushed (Date_now w), StatusSet emailId st] \<rparr>)
           = (task, s', w')"
    | (failed) st where "outcome = Inr st" "\<not> success st"
        "loopFrom (s\<lparr> status := (status s)(emailId \<mapsto> st) \<rparr>)
                  (w\<lparr> trace := trace w @ [StatusSet emailId st] \<rparr>) = (task, s', w')"
    using assms by (auto simp: afterStatus_def split: sum.splits if_splits)
  then have "sentEmails s \<subseteq> sentEmails s' \<and>
             (sentEmails s = succeeded (trace w) \<longrightarrow> sentEmails s' = succeeded (trace w')) \<and>
             providers s' = providers s \<and> currentProviderIndex s' = currentProviderIndex s"
  proof cases
    case raised
    then show ?thesis by simp
  next
    case sent
    from loopFrom_keeps[OF sent(3)] sent(2) show ?thesis
      by (auto simp: succeeded_append)
  next
    case failed
    from loopFrom_keeps[OF failed(3)] failed(2) show ?thesis
      by (auto simp: succeeded_append)
  qed
  then show "sentEmails s \<subseteq> sentEmails s'"
    and "sentEmails s = succeeded (trace w) \<Longrightarrow> sentEmails s' = succeeded (trace w')"
    and "providers s' = providers s" and "currentProviderIndex s' = currentProviderIndex s"
    by simp_all
qed

text \<open>One action, then a whole schedule.\<close>

lemma act_keeps:
  assumes "act a sys = Some sys'"
  shows "sentEmails (service sys) \<subseteq> sentEmails (service sys')"
    and "sentEmails (service sys) = succeeded (trace (env sys))
         \<Longrightarrow> sentEmails (service sys') = succeeded (trace (env sys'))"
    and "providers (service sys') = providers (service sys)"
    and "cursorOk (service sys) \<Longrightarrow> cursorOk (service sys')"
proof -
  have "sentEmails (service sys) \<subseteq> sentEmails (service sys') \<and>
        (sentEmails (service sys) = succeeded (trace (env sys))
           \<longrightarrow> sentEmails (service sys') = succeeded (trace (env sys'))) \<and>
        providers (service sys') = providers (service sys) \<and>
        (cursorOk (service sys) \<longrightarrow> cursorOk (service sys'))"
  proof (cases a)
    case (Call t emailId emailDetails)
    show ?thesis
    proof (cases "emailId \<in> sentEmails (service sys)")
      case True
      with Call assms show ?thesis
        by (auto simp: call_def enrol_def Let_def split: if_splits)
    next
      case False
      obtain task s1 w1 where lf:
        "loopFrom ((service sys)\<lparr> emailQueue := emailQueue (service sys) @ [(emailId, emailDetails)] \<rparr>)
                  ((env sys)\<lparr> clock := t \<rparr>) = (task, s1, w1)"
        by (metis prod_cases3)
      with Call assms False have sys': "service sys' = s1" "env sys' = w1"
        by (auto simp: call_def enrol_def Let_def split: if_splits)
      from loopFrom_keeps[OF lf] sys' show ?thesis
        by (simp add: cursorOk_def)
    qed
  next
    case (Resume t k)
    with assms have k: "k < length (tasks sys)" and res: "resume t k sys = Some sys'"
      by (auto simp: resume_def split: if_splits)
    show ?thesis
    proof (cases "tasks sys ! k")
      case (AwaitProvider emailId emailDetails attempt response)
      obtain task s1 w1 where st:
        "afterReply emailId emailDetails attempt response (service sys) ((env sys)\<lparr> clock := t \<rparr>)
           = (task, s1, w1)"
        by (metis prod_cases3)
      with res AwaitProvider have sys': "service sys' = s1" "env sys' = w1"
        by (auto simp: resume_def park_def Let_def split: if_splits)
      from afterReply_keeps[OF st] sys' show ?thesis by simp
    next
      case (AwaitBackoff emailId emailDetails attempt wake)
      obtain task s1 w1 where st:
        "attemptFrom attempt emailId emailDetails (service sys) ((env sys)\<lparr> clock := t \<rparr>)
           = (task, s1, w1)"
        by (metis prod_cases3)
      with res AwaitBackoff have sys': "service sys' = s1" "env sys' = w1"
        by (auto simp: resume_def park_def Let_def split: if_splits)
      from attemptFrom_keeps[OF st] sys' show ?thesis by simp
    next
      case (AwaitStatus emailId outcome)
      obtain task s1 w1 where st:
        "afterStatus emailId outcome (service sys) ((env sys)\<lparr> clock := t \<rparr>) = (task, s1, w1)"
        by (metis prod_cases3)
      with res AwaitStatus have sys': "service sys' = s1" "env sys' = w1"
        by (auto simp: resume_def park_def Let_def split: if_splits)
      from afterStatus_keeps[OF st] sys' show ?thesis by (simp add: cursorOk_def)
    next
      case (AwaitRateLimit wake)
      obtain task s1 w1 where st:
        "loopFrom (service sys) ((env sys)\<lparr> clock := t \<rparr>) = (task, s1, w1)"
        by (metis prod_cases3)
      with res AwaitRateLimit have sys': "service sys' = s1" "env sys' = w1"
        by (auto simp: resume_def park_def Let_def split: if_splits)
      from loopFrom_keeps[OF st] sys' show ?thesis by (simp add: cursorOk_def)
    next
      case (Settled v)
      with res show ?thesis by (simp add: resume_def split: if_splits)
    qed
  qed
  then show "sentEmails (service sys) \<subseteq> sentEmails (service sys')"
    and "sentEmails (service sys) = succeeded (trace (env sys))
         \<Longrightarrow> sentEmails (service sys') = succeeded (trace (env sys'))"
    and "providers (service sys') = providers (service sys)"
    and "cursorOk (service sys) \<Longrightarrow> cursorOk (service sys')"
    by simp_all
qed

lemma run_keeps:
  assumes "run acts sys = Some sys'"
  shows "sentEmails (service sys) \<subseteq> sentEmails (service sys')"
    and "sentEmails (service sys) = succeeded (trace (env sys))
         \<Longrightarrow> sentEmails (service sys') = succeeded (trace (env sys'))"
    and "providers (service sys') = providers (service sys)"
    and "cursorOk (service sys) \<Longrightarrow> cursorOk (service sys')"
proof -
  have "run acts sys = Some sys' \<longrightarrow>
        sentEmails (service sys) \<subseteq> sentEmails (service sys') \<and>
        (sentEmails (service sys) = succeeded (trace (env sys))
           \<longrightarrow> sentEmails (service sys') = succeeded (trace (env sys'))) \<and>
        providers (service sys') = providers (service sys) \<and>
        (cursorOk (service sys) \<longrightarrow> cursorOk (service sys'))"
  proof (induction acts arbitrary: sys)
    case Nil
    show ?case by simp
  next
    case (Cons a acts)
    show ?case
    proof
      assume r: "run (a # acts) sys = Some sys'"
      then obtain mid where a: "act a sys = Some mid" and rest: "run acts mid = Some sys'"
        by (auto split: option.splits)
      from Cons.IH[of mid] rest act_keeps[OF a]
      show "sentEmails (service sys) \<subseteq> sentEmails (service sys') \<and>
        (sentEmails (service sys) = succeeded (trace (env sys))
           \<longrightarrow> sentEmails (service sys') = succeeded (trace (env sys'))) \<and>
        providers (service sys') = providers (service sys) \<and>
        (cursorOk (service sys) \<longrightarrow> cursorOk (service sys'))"
        by auto
    qed
  qed
  with assms show "sentEmails (service sys) \<subseteq> sentEmails (service sys')"
    and "sentEmails (service sys) = succeeded (trace (env sys))
         \<Longrightarrow> sentEmails (service sys') = succeeded (trace (env sys'))"
    and "providers (service sys') = providers (service sys)"
    and "cursorOk (service sys) \<Longrightarrow> cursorOk (service sys')"
    by simp_all
qed

section \<open>The provider cursor\<close>

lemma trySendWithRetries_frame:
  assumes "trySendWithRetries emailId d s w = (r, s', w')"
  shows "s' = s\<lparr> currentProviderIndex := currentProviderIndex s' \<rparr>"
    and "lag w' = lag w" and "clock w \<le> clock w'"
    and "\<exists>n. since w w' = backoffTrace (currentProviderIndex s) d 0 n"
proof -
  from assms have loop: "trySendLoop 0 emailId d s w = (r, s', w')"
    by (simp add: trySendWithRetries_def)
  from trySendLoop_frame(1)[OF loop] since_append
  show "\<exists>n. since w w' = backoffTrace (currentProviderIndex s) d 0 n" by blast
  show "s' = s\<lparr> currentProviderIndex := currentProviderIndex s' \<rparr>"
    by (rule trySendLoop_frame(2)[OF loop])
  show "lag w' = lag w" by (rule trySendLoop_frame(3)[OF loop])
  show "clock w \<le> clock w'" by (rule trySendLoop_frame(4)[OF loop])
qed

lemma trySendWithRetries_fields:
  assumes "trySendWithRetries emailId d s w = (r, s', w')"
  shows "providers s' = providers s" and "maxRetries s' = maxRetries s"
    and "rateLimit s' = rateLimit s" and "status s' = status s"
    and "sentEmails s' = sentEmails s" and "emailQueue s' = emailQueue s"
    and "lastSentTimestamps s' = lastSentTimestamps s"
proof -
  note eq = trySendWithRetries_frame(1)[OF assms]
  show "providers s' = providers s" using arg_cong[OF eq, of providers] by simp
  show "maxRetries s' = maxRetries s" using arg_cong[OF eq, of maxRetries] by simp
  show "rateLimit s' = rateLimit s" using arg_cong[OF eq, of rateLimit] by simp
  show "status s' = status s" using arg_cong[OF eq, of status] by simp
  show "sentEmails s' = sentEmails s" using arg_cong[OF eq, of sentEmails] by simp
  show "emailQueue s' = emailQueue s" using arg_cong[OF eq, of emailQueue] by simp
  show "lastSentTimestamps s' = lastSentTimestamps s"
    using arg_cong[OF eq, of lastSentTimestamps] by simp
qed

lemma trySendWithRetries_cursorOk:
  assumes ok: "cursorOk s" and run: "trySendWithRetries emailId d s w = (r, s', w')"
  shows "cursorOk s'" and "(\<exists>st. r = Inr st) \<or> r = Inl (TypeError MessageOfNullish)"
proof -
  from ok have nonempty: "0 < length (providers s)" by (auto simp: cursorOk_def)
  from ok run obtain n where
    "r = Inr \<lparr> success = True, message = ''Email sent successfully.'' \<rparr> \<and> 0 < n \<and>
           s' = s \<and> \<not> failedAt s w d (n - 1)
         \<or> r = Inr \<lparr> success = False, message = ''All attempts failed.'' \<rparr> \<and>
           n = maxRetries s \<and> (0 < n \<longrightarrow> failedAt s w d (n - 1)) \<and>
           s' = (if n = 0 then s
                 else s\<lparr> currentProviderIndex :=
                          (currentProviderIndex s + 1) mod length (providers s) \<rparr>)
         \<or> r = Inl (TypeError MessageOfNullish) \<and> 0 < n \<and> s' = s \<and>
           \<not> failedAt s w d (n - 1)"
    by (rule trySendWithRetries_shape)
  then have "(s' = s \<or> s' = s\<lparr> currentProviderIndex :=
                          (currentProviderIndex s + 1) mod length (providers s) \<rparr>)
      \<and> ((\<exists>st. r = Inr st) \<or> r = Inl (TypeError MessageOfNullish))"
    by (auto split: if_splits)
  then show "cursorOk s'" and "(\<exists>st. r = Inr st) \<or> r = Inl (TypeError MessageOfNullish)"
    using ok nonempty by (auto simp: cursorOk_def)
qed

lemma drainStep_frame:
  assumes "drainStep s w = (r, s', w')"
  shows "providers s' = providers s" and "maxRetries s' = maxRetries s"
    and "rateLimit s' = rateLimit s" and "lag w' = lag w" and "clock w \<le> clock w'"
proof -
  have "providers s' = providers s \<and> maxRetries s' = maxRetries s \<and>
        rateLimit s' = rateLimit s \<and> lag w' = lag w \<and> clock w \<le> clock w'"
    using assms
  proof (cases rule: drainStep_cases)
    case limited
    then show ?thesis by (simp add: sleep_def timerDelay_def)
  next
    case empty
    then show ?thesis by simp
  next
    case (thrown emailId emailDetails rest e)
    from trySendWithRetries_fields(1-3)[OF thrown(3)] trySendWithRetries_frame(2,3)[OF thrown(3)]
    show ?thesis by simp
  next
    case (sent emailId emailDetails rest st s3 w3)
    from trySendWithRetries_fields(1-3)[OF sent(3)] trySendWithRetries_frame(2,3)[OF sent(3)]
      sent(6,7)
    show ?thesis by simp
  next
    case (failed emailId emailDetails rest st s3 w3)
    from trySendWithRetries_fields(1-3)[OF failed(3)] trySendWithRetries_frame(2,3)[OF failed(3)]
      failed(6,7)
    show ?thesis by simp
  qed
  then show "providers s' = providers s" and "maxRetries s' = maxRetries s"
    and "rateLimit s' = rateLimit s" and "lag w' = lag w" and "clock w \<le> clock w'"
    by blast+
qed


lemma drainStep_cursorOk:
  assumes ok: "cursorOk s" and step: "drainStep s w = (r, s', w')"
  shows "cursorOk s'"
    and "emailQueue s \<noteq> [] \<Longrightarrow> r = Inr () \<or> r = Inl (TypeError MessageOfNullish)"
proof -
  have "cursorOk s' \<and>
        (emailQueue s \<noteq> [] \<longrightarrow> r = Inr () \<or> r = Inl (TypeError MessageOfNullish))"
    using step
  proof (cases rule: drainStep_cases)
    case limited
    with ok show ?thesis by (simp add: cursorOk_def)
  next
    case empty
    with ok show ?thesis by (simp add: cursorOk_def)
  next
    case (thrown emailId emailDetails rest e)
    have "cursorOk (s\<lparr> lastSentTimestamps := recent s w, emailQueue := rest \<rparr>)"
      using ok by (simp add: cursorOk_def)
    from trySendWithRetries_cursorOk[OF this thrown(3)] thrown(4) show ?thesis
      by (simp add: cursorOk_def)
  next
    case (sent emailId emailDetails rest st s3 w3)
    have "cursorOk (s\<lparr> lastSentTimestamps := recent s w, emailQueue := rest \<rparr>)"
      using ok by (simp add: cursorOk_def)
    from trySendWithRetries_cursorOk(1)[OF this sent(3)] sent(5,6) show ?thesis
      by (simp add: cursorOk_def)
  next
    case (failed emailId emailDetails rest st s3 w3)
    have "cursorOk (s\<lparr> lastSentTimestamps := recent s w, emailQueue := rest \<rparr>)"
      using ok by (simp add: cursorOk_def)
    from trySendWithRetries_cursorOk(1)[OF this failed(3)] failed(5,6) show ?thesis
      by (simp add: cursorOk_def)
  qed
  then show "cursorOk s'"
    and "emailQueue s \<noteq> [] \<Longrightarrow> r = Inr () \<or> r = Inl (TypeError MessageOfNullish)"
    by blast+
qed

lemma processQueue_cursorOk_aux:
  "processQueue s w = Some y \<Longrightarrow>
   cursorOk s \<longrightarrow>
     cursorOk (fst (snd y)) \<and>
     (fst y = Inr Undefined \<and> emailQueue (fst (snd y)) = [] \<or>
      fst y = Inl (TypeError MessageOfNullish))"
proof (induction s w y rule: processQueue.raw_induct[rotated 1, consumes 1, case_names body])
  case (body processQueue s w y)
  note ih = body(1) and body = body(2)
  show ?case
  proof
    assume ok: "cursorOk s"
    show "cursorOk (fst (snd y)) \<and>
     (fst y = Inr Undefined \<and> emailQueue (fst (snd y)) = [] \<or>
      fst y = Inl (TypeError MessageOfNullish))"
    proof (cases "emailQueue s = []")
      case True
      with ok body show ?thesis by auto
    next
      case False
      obtain r s1 w1 where step: "drainStep s w = (r, s1, w1)" by (metis prod_cases3)
      from drainStep_cursorOk[OF ok step] False
      have ok1: "cursorOk s1" and r: "r = Inr () \<or> r = Inl (TypeError MessageOfNullish)"
        by simp_all
      from r show ?thesis
      proof
        assume "r = Inr ()"
        with body False step have "processQueue s1 w1 = Some y" by simp
        from ih[OF this] ok1 show ?thesis by blast
      next
        assume "r = Inl (TypeError MessageOfNullish)"
        with body False step have "y = (Inl (TypeError MessageOfNullish), s1, w1)" by simp
        with ok1 show ?thesis by simp
      qed
    qed
  qed
qed

lemma processQueue_cursorOk:
  "processQueue s w = Some y \<Longrightarrow> cursorOk s \<Longrightarrow>
   cursorOk (fst (snd y)) \<and>
   (fst y = Inr Undefined \<and> emailQueue (fst (snd y)) = [] \<or>
    fst y = Inl (TypeError MessageOfNullish))"
  using processQueue_cursorOk_aux by blast

lemma reach_providers_cursorOk:
  "reach s w \<Longrightarrow> providers s \<noteq> [] \<Longrightarrow> cursorOk s"
proof (induction rule: reach.induct)
  case (init w ps mr rl)
  then show ?case by (simp add: new_EmailService_def cursorOk_def)
next
  case (push s w emailId emailDetails)
  then show ?case by (simp add: cursorOk_def)
next
  case (iterate s w r s' w')
  from drainStep_frame(1)[OF iterate(3)] iterate(5) have "providers s \<noteq> []" by simp
  then have "cursorOk s" by (rule iterate(4))
  from drainStep_cursorOk(1)[OF this iterate(3)] show ?case .
next
  case (idle s w dt)
  then show ?case by simp
qed

text \<open>
  C10. A service constructed with a non-empty provider list has its cursor inside the
  list, and every operation keeps it there: \<open>switchProvider\<close> succeeds and takes the
  successor modulo the length; the processing of a message leaves the cursor inside the
  list and every provider lookup finds a provider, so that the only exception that can
  leave it is the one of line 80, on a thrown \<^verbatim>\<open>null\<close> or \<^verbatim>\<open>undefined\<close>; and
  the same holds of an iteration of the drain loop, of a whole \<open>processQueue\<close> and of
  a \<open>sendEmail\<close>. The cursor is inside the list in every state the service goes
  through. When calls overlap it is the same: with the cursor inside the list an attempt
  finds its provider, and whatever the schedule, the cursor stays inside the list.
\<close>

theorem cursor_in_bounds:
  "(ps \<noteq> [] \<longrightarrow> cursorOk (new_EmailService ps mr rl)) \<and>
   (cursorOk s \<longrightarrow>
      switchProvider s = Inr (s\<lparr> currentProviderIndex :=
                                   (currentProviderIndex s + 1) mod length (providers s) \<rparr>) \<and>
      cursorOk (s\<lparr> currentProviderIndex :=
                     (currentProviderIndex s + 1) mod length (providers s) \<rparr>) \<and>
      ((\<exists>st. fst (trySendWithRetries emailId d s w) = Inr st) \<or>
       fst (trySendWithRetries emailId d s w) = Inl (TypeError MessageOfNullish)) \<and>
      cursorOk (fst (snd (trySendWithRetries emailId d s w))) \<and>
      cursorOk (fst (snd (drainStep s w))) \<and>
      (emailQueue s \<noteq> [] \<longrightarrow>
         fst (drainStep s w) = Inr () \<or>
         fst (drainStep s w) = Inl (TypeError MessageOfNullish)) \<and>
      (\<forall>y. processQueue s w = Some y \<longrightarrow>
           cursorOk (fst (snd y)) \<and>
           (fst y = Inr Undefined \<or> fst y = Inl (TypeError MessageOfNullish))) \<and>
      (\<forall>y. sendEmail emailId d s w = Some y \<longrightarrow>
           cursorOk (fst (snd y)) \<and>
           ((\<exists>v. fst y = Inr v) \<or> fst y = Inl (TypeError MessageOfNullish)))) \<and>
   (reach s w \<and> providers s \<noteq> [] \<longrightarrow> cursorOk s) \<and>
   (cursorOk s \<longrightarrow>
      fst (attemptFrom attempt emailId d s w)
        \<noteq> AwaitStatus emailId (Inl (TypeError NameOfUndefined))) \<and>
   (\<forall>sys'. cursorOk (service sys) \<and> run acts sys = Some sys' \<longrightarrow> cursorOk (service sys'))"
proof -
  have constructed: "ps \<noteq> [] \<longrightarrow> cursorOk (new_EmailService ps mr rl)"
    by (simp add: new_EmailService_def cursorOk_def)
  have ops: "switchProvider s = Inr (s\<lparr> currentProviderIndex :=
                                   (currentProviderIndex s + 1) mod length (providers s) \<rparr>) \<and>
      cursorOk (s\<lparr> currentProviderIndex :=
                     (currentProviderIndex s + 1) mod length (providers s) \<rparr>) \<and>
      ((\<exists>st. fst (trySendWithRetries emailId d s w) = Inr st) \<or>
       fst (trySendWithRetries emailId d s w) = Inl (TypeError MessageOfNullish)) \<and>
      cursorOk (fst (snd (trySendWithRetries emailId d s w))) \<and>
      cursorOk (fst (snd (drainStep s w))) \<and>
      (emailQueue s \<noteq> [] \<longrightarrow>
         fst (drainStep s w) = Inr () \<or>
         fst (drainStep s w) = Inl (TypeError MessageOfNullish)) \<and>
      (\<forall>y. processQueue s w = Some y \<longrightarrow>
           cursorOk (fst (snd y)) \<and>
           (fst y = Inr Undefined \<or> fst y = Inl (TypeError MessageOfNullish))) \<and>
      (\<forall>y. sendEmail emailId d s w = Some y \<longrightarrow>
           cursorOk (fst (snd y)) \<and>
           ((\<exists>v. fst y = Inr v) \<or> fst y = Inl (TypeError MessageOfNullish)))"
    if ok: "cursorOk s"
  proof -
    from ok have nonempty: "providers s \<noteq> []" by (auto simp: cursorOk_def)
    have sw: "switchProvider s = Inr (s\<lparr> currentProviderIndex :=
                                   (currentProviderIndex s + 1) mod length (providers s) \<rparr>)"
      using nonempty by (simp add: switchProvider_def)
    have sw_ok: "cursorOk (s\<lparr> currentProviderIndex :=
                     (currentProviderIndex s + 1) mod length (providers s) \<rparr>)"
      using nonempty by (simp add: cursorOk_def)
    have t: "trySendWithRetries emailId d s w =
       (fst (trySendWithRetries emailId d s w), fst (snd (trySendWithRetries emailId d s w)),
        snd (snd (trySendWithRetries emailId d s w)))" by simp
    note tr = trySendWithRetries_cursorOk[OF ok t]
    have ds: "drainStep s w =
       (fst (drainStep s w), fst (snd (drainStep s w)), snd (snd (drainStep s w)))" by simp
    note dr = drainStep_cursorOk[OF ok ds]
    have pq: "\<forall>y. processQueue s w = Some y \<longrightarrow>
           cursorOk (fst (snd y)) \<and>
           (fst y = Inr Undefined \<or> fst y = Inl (TypeError MessageOfNullish))"
      using processQueue_cursorOk[OF _ ok] by blast
    have se: "\<forall>y. sendEmail emailId d s w = Some y \<longrightarrow>
           cursorOk (fst (snd y)) \<and>
           ((\<exists>v. fst y = Inr v) \<or> fst y = Inl (TypeError MessageOfNullish))"
    proof (intro allI impI)
      fix y assume y: "sendEmail emailId d s w = Some y"
      show "cursorOk (fst (snd y)) \<and>
           ((\<exists>v. fst y = Inr v) \<or> fst y = Inl (TypeError MessageOfNullish))"
      proof (cases "emailId \<in> sentEmails s")
        case True
        with y ok show ?thesis by (auto simp: sendEmail_def)
      next
        case False
        let ?s = "s\<lparr> emailQueue := emailQueue s @ [(emailId, d)] \<rparr>"
        have "cursorOk ?s" using ok by (simp add: cursorOk_def)
        moreover from y False have "processQueue ?s w = Some y" by (simp add: sendEmail_def)
        ultimately show ?thesis using processQueue_cursorOk by blast
      qed
    qed
    from sw sw_ok tr dr pq se show ?thesis by blast
  qed
  have reached: "reach s w \<and> providers s \<noteq> [] \<longrightarrow> cursorOk s"
    using reach_providers_cursorOk by blast
  have lookup: "cursorOk s \<longrightarrow>
      fst (attemptFrom attempt emailId d s w)
        \<noteq> AwaitStatus emailId (Inl (TypeError NameOfUndefined))"
    by (simp add: attemptFrom_def cursorOk_def)
  have overlapping:
    "\<forall>sys'. cursorOk (service sys) \<and> run acts sys = Some sys' \<longrightarrow> cursorOk (service sys')"
    using run_keeps(4) by blast
  from ops have ops': "cursorOk s \<longrightarrow>
      switchProvider s = Inr (s\<lparr> currentProviderIndex :=
                                   (currentProviderIndex s + 1) mod length (providers s) \<rparr>) \<and>
      cursorOk (s\<lparr> currentProviderIndex :=
                     (currentProviderIndex s + 1) mod length (providers s) \<rparr>) \<and>
      ((\<exists>st. fst (trySendWithRetries emailId d s w) = Inr st) \<or>
       fst (trySendWithRetries emailId d s w) = Inl (TypeError MessageOfNullish)) \<and>
      cursorOk (fst (snd (trySendWithRetries emailId d s w))) \<and>
      cursorOk (fst (snd (drainStep s w))) \<and>
      (emailQueue s \<noteq> [] \<longrightarrow>
         fst (drainStep s w) = Inr () \<or>
         fst (drainStep s w) = Inl (TypeError MessageOfNullish)) \<and>
      (\<forall>y. processQueue s w = Some y \<longrightarrow>
           cursorOk (fst (snd y)) \<and>
           (fst y = Inr Undefined \<or> fst y = Inl (TypeError MessageOfNullish))) \<and>
      (\<forall>y. sendEmail emailId d s w = Some y \<longrightarrow>
           cursorOk (fst (snd y)) \<and>
           ((\<exists>v. fst y = Inr v) \<or> fst y = Inl (TypeError MessageOfNullish)))"
    by (rule impI)
  show ?thesis
    by (rule conjI[OF constructed conjI[OF ops' conjI[OF reached conjI[OF lookup overlapping]]]])
qed

theorem cursor_in_bounds_witness:
  "cursorOk (new_EmailService [alwaysThrows ''P1'', alwaysDelivers ''P2''] 2 5
               :: unit EmailService) \<and>
   switchProvider (new_EmailService [alwaysThrows ''P1'', alwaysDelivers ''P2''] 2 5
                     :: unit EmailService)
     = Inr ((new_EmailService [alwaysThrows ''P1'', alwaysDelivers ''P2''] 2 5)
              \<lparr> currentProviderIndex := 1 \<rparr>) \<and>
   cursorOk (fst (snd (trySendWithRetries ''m1'' ()
      (new_EmailService [alwaysThrows ''P1'', alwaysDelivers ''P2''] 2 5) world0))) \<and>
   fst (attemptFrom 0 ''m1'' ()
      (new_EmailService [alwaysThrows ''P1'', alwaysDelivers ''P2''] 2 5) world0)
     \<noteq> AwaitStatus ''m1'' (Inl (TypeError NameOfUndefined)) \<and>
   map_option (\<lambda>sys. (cursorOk (service sys), currentProviderIndex (service sys)))
     (run [Call 0 ''m1'' (), Resume 0 0, Resume 200 0, Resume 200 0, Resume 200 0]
        (boot (new_EmailService [alwaysThrows ''P1'', alwaysDelivers ''P2''] 2 5) world0))
     = Some (True, 1)"
proof -
  let ?svc = "new_EmailService [alwaysThrows ''P1'', alwaysDelivers ''P2''] 2 5
                :: unit EmailService"
  let ?acts = "[Call 0 ''m1'' (), Resume 0 0, Resume 200 0, Resume 200 0, Resume 200 0]"
  have ne: "[alwaysThrows ''P1'', alwaysDelivers ''P2'' :: unit provider] \<noteq> []" by simp
  note inst = cursor_in_bounds[of "[alwaysThrows ''P1'', alwaysDelivers ''P2'']" 2 5
      ?svc "''m1''" "()" world0 0 "boot ?svc world0" ?acts]
  from inst[THEN conjunct1] ne have ok: "cursorOk ?svc"
    by blast
  note ops = mp[OF inst[THEN conjunct2, THEN conjunct1] ok]
  note sw = ops[THEN conjunct1]
  note c = ops[THEN conjunct2, THEN conjunct2, THEN conjunct2, THEN conjunct1]
  from sw have sw1: "switchProvider ?svc = Inr (?svc\<lparr> currentProviderIndex := 1 \<rparr>)"
    by (simp add: new_EmailService_def)
  note lookup = mp[OF inst[THEN conjunct2, THEN conjunct2, THEN conjunct2, THEN conjunct1] ok]
  have "map_option (\<lambda>sys. currentProviderIndex (service sys)) (run ?acts (boot ?svc world0))
          = Some 1"
    by (simp add: stepping alwaysThrows_def alwaysDelivers_def)
  then obtain sys' where r: "run ?acts (boot ?svc world0) = Some sys'"
    and at1: "currentProviderIndex (service sys') = 1"
    by auto
  from ok have "cursorOk (service (boot ?svc world0))" by (simp add: boot_def)
  with inst[THEN conjunct2, THEN conjunct2, THEN conjunct2, THEN conjunct2] r
  have "cursorOk (service sys')" by blast
  with r at1 have overlapping:
    "map_option (\<lambda>sys. (cursorOk (service sys), currentProviderIndex (service sys)))
       (run ?acts (boot ?svc world0)) = Some (True, 1)"
    by simp
  show ?thesis
    by (rule conjI[OF ok conjI[OF sw1 conjI[OF c conjI[OF lookup overlapping]]]])
qed

section \<open>Faults and rejections\<close>

lemma caught_faultsAsRejections:
  "caught (provider_sendEmail (faultsAsRejections p) k d) = caught (provider_sendEmail p k d)"
  by (auto simp: faultsAsRejections_def caught_def split: reply.splits thrown.splits)

lemma callProvider_faultsAsRejections:
  "callProvider p i d w = (response, w1) \<Longrightarrow>
   \<exists>response'. callProvider (faultsAsRejections p) i d w = (response', w1) \<and>
                caught response' = caught response"
  using caught_faultsAsRejections[of p "awaited w" d] by (auto simp: callProvider_def)

lemma trySendLoop_faultsAsRejections:
  "trySendLoop a emailId d (withFaultsAsRejections s) w =
     (case trySendLoop a emailId d s w of (r, s', w') \<Rightarrow> (r, withFaultsAsRejections s', w'))"
proof (induction a emailId d s w rule: trySendLoop.induct)
  case (1 attempt emailId emailDetails s w)
  let ?t = "withFaultsAsRejections s"
  have flds: "maxRetries ?t = maxRetries s" "currentProviderIndex ?t = currentProviderIndex s"
    "length (providers ?t) = length (providers s)"
    by (simp_all add: withFaultsAsRejections_def)
  show ?case
  proof (cases "attempt < maxRetries s")
    case False
    then have "\<not> attempt < maxRetries ?t" using flds by simp
    from trySendLoop_done[OF this] trySendLoop_done[OF False] show ?thesis by simp
  next
    case lt: True
    then have lt': "attempt < maxRetries ?t" using flds by simp
    show ?thesis
    proof (cases "currentProviderIndex s < length (providers s)")
      case False
      then have "\<not> currentProviderIndex ?t < length (providers ?t)" using flds by simp
      from trySendLoop_undefined[OF lt' this] trySendLoop_undefined[OF lt False]
      show ?thesis by simp
    next
      case inrange: True
      then have inrange': "currentProviderIndex ?t < length (providers ?t)" using flds by simp
      obtain response w1 where cp: "callProvider (providers s ! currentProviderIndex s)
          (currentProviderIndex s) emailDetails w = (response, w1)"
        by (cases "callProvider (providers s ! currentProviderIndex s) (currentProviderIndex s) emailDetails w")
      have nth: "providers ?t ! currentProviderIndex ?t
          = faultsAsRejections (providers s ! currentProviderIndex s)"
        using inrange by (simp add: withFaultsAsRejections_def)
      from callProvider_faultsAsRejections[OF cp] obtain response' where
        cp': "callProvider (providers ?t ! currentProviderIndex ?t)
          (currentProviderIndex ?t) emailDetails w = (response', w1)"
        and same: "caught response' = caught response"
        using nth flds(2) by auto
      show ?thesis
      proof (cases "caught response")
        case None
        then have None': "caught response' = None" using same by simp
        from trySendLoop_sent[OF lt' inrange' cp' None'] trySendLoop_sent[OF lt inrange cp None]
        show ?thesis by simp
      next
        case (Some e)
        show ?thesis
        proof (cases e)
          case Nullish
          with Some have null: "caught response = Some Nullish" by simp
          then have null': "caught response' = Some Nullish" using same by simp
          from trySendLoop_nullish[OF lt' inrange' cp' null']
            trySendLoop_nullish[OF lt inrange cp null]
          show ?thesis by simp
        next
          case (Value err)
          with Some have failed: "caught response = Some (Value err)" by simp
          then have failed': "caught response' = Some (Value err)" using same by simp
          show ?thesis
          proof (cases "Suc attempt < maxRetries s")
            case True
            then have True': "Suc attempt < maxRetries ?t" using flds by simp
            from trySendLoop_retry[OF True' inrange' cp' failed']
              trySendLoop_retry[OF True inrange cp failed]
              "1.IH"(1)[OF lt inrange cp[symmetric] Some Value True]
            show ?thesis by simp
          next
            case False
            then have False': "\<not> Suc attempt < maxRetries ?t" using flds by simp
            from trySendLoop_exhausted[OF lt' False' inrange' cp' failed']
              trySendLoop_exhausted[OF lt False inrange cp failed]
            show ?thesis by (simp add: withFaultsAsRejections_def)
          qed
        qed
      qed
    qed
  qed
qed

text \<open>
  For a call that runs alone: replacing every fault with a message by an unsuccessful
  response with the same message changes nothing in the processing of a message: the
  same result, the same provider calls and backoff waits at the same times, the same
  cursor afterwards.
\<close>

lemma faults_with_message_as_rejections:
  "trySendWithRetries emailId d (withFaultsAsRejections s) w =
     (case trySendWithRetries emailId d s w of
        (r, s', w') \<Rightarrow> (r, withFaultsAsRejections s', w'))"
  unfolding trySendWithRetries_def by (rule trySendLoop_faultsAsRejections)

lemma fixture_throws_null:
  "trySendWithRetries ''m1'' () (new_EmailService [throwsNull ''P1''] 3 5) world0
   = (Inl (TypeError MessageOfNullish), new_EmailService [throwsNull ''P1''] 3 5,
      \<lparr> clock = 0, awaited = 1, lag = (\<lambda>k. 0), trace = [ProviderCall 0 ()] \<rparr>)"
  by (simp add: trySendWithRetries_def trySendLoop.simps new_EmailService_def throwsNull_def
      world0_def callProvider_def caught_def)

lemma fixture_send_throws_null:
  "sendEmail ''m1'' () (new_EmailService [throwsNull ''P1''] 3 5) world0
   = Some (Inl (TypeError MessageOfNullish), new_EmailService [throwsNull ''P1''] 3 5,
      \<lparr> clock = 0, awaited = 1, lag = (\<lambda>k. 0), trace = [ProviderCall 0 ()] \<rparr>)"
  by (simp add: sendEmail_def processQueue.simps drainStep_def Date_now_def
      trySendWithRetries_def trySendLoop.simps new_EmailService_def throwsNull_def
      world0_def callProvider_def caught_def)

lemma fixture_throws_thrice:
  "trySendWithRetries ''m1'' () (new_EmailService [alwaysThrows ''P1''] 3 5) world0
   = (Inr \<lparr> success = False, message = ''All attempts failed.'' \<rparr>,
      new_EmailService [alwaysThrows ''P1''] 3 5,
      \<lparr> clock = 600, awaited = 5, lag = (\<lambda>k. 0),
        trace = [ProviderCall 0 (), Slept 200, ProviderCall 0 (), Slept 400,
                 ProviderCall 0 ()] \<rparr>)"
  by (simp add: trySendWithRetries_def trySendLoop.simps new_EmailService_def alwaysThrows_def
      world0_def callProvider_def caught_def sleep_def timerDelay_def switchProvider_def)

text \<open>
  C8. A provider that throws \<^verbatim>\<open>null\<close> is not handled like one that throws an
  \<^verbatim>\<open>Error\<close> or returns an unsuccessful response. With the \<^verbatim>\<open>Error\<close>, the
  processing makes its three attempts and returns the failure. With \<^verbatim>\<open>null\<close>,
  the \<^verbatim>\<open>catch\<close> raises a \<open>TypeError\<close> on reading \<^verbatim>\<open>error.message\<close>:
  \<open>trySendWithRetries\<close> makes one call, waits for nothing and returns no result, and
  the exception leaves \<open>sendEmail\<close> too, with the entry taken off the queue and no
  status recorded for it.
\<close>

theorem thrown_null_escapes:
  "fst (trySendWithRetries ''m1'' () (new_EmailService [alwaysThrows ''P1''] 3 5) world0)
     = Inr \<lparr> success = False, message = ''All attempts failed.'' \<rparr> \<and>
   calls (trace (snd (snd (trySendWithRetries ''m1'' ()
            (new_EmailService [alwaysThrows ''P1''] 3 5) world0))))
     = [(0, ()), (0, ()), (0, ())] \<and>
   fst (trySendWithRetries ''m1'' () (new_EmailService [throwsNull ''P1''] 3 5) world0)
     = Inl (TypeError MessageOfNullish) \<and>
   trace (snd (snd (trySendWithRetries ''m1'' ()
            (new_EmailService [throwsNull ''P1''] 3 5) world0)))
     = [ProviderCall 0 ()] \<and>
   (\<exists>s' w'. sendEmail ''m1'' () (new_EmailService [throwsNull ''P1''] 3 5) world0
              = Some (Inl (TypeError MessageOfNullish), s', w') \<and>
            emailQueue s' = [] \<and> status s' ''m1'' = None)"
  unfolding fixture_throws_thrice fixture_throws_null fixture_send_throws_null
  by (simp add: new_EmailService_def)

section \<open>The effect of one iteration\<close>

lemma trySendWithRetries_trace:
  assumes "trySendWithRetries emailId d s w = (r, s', w')"
  shows "\<exists>n. n \<le> maxRetries s \<and> trace w' = trace w @ backoffTrace (currentProviderIndex s) d 0 n"
proof -
  from assms have loop: "trySendLoop 0 emailId d s w = (r, s', w')"
    by (simp add: trySendWithRetries_def)
  from trySendLoop_frame(1)[OF loop] show ?thesis by auto
qed

lemma drainStep_effect [consumes 1, case_names limited empty thrown sent failed]:
  assumes "drainStep s w = (r, s', w')"
  obtains
    "rateLimit s \<le> length (recent s w)" "r = Inr ()"
      "s' = s\<lparr> lastSentTimestamps := recent s w \<rparr>" "w' = sleep 1000 w"
  | "length (recent s w) < rateLimit s" "emailQueue s = []" "r = Inl (TypeError DestructureUndefined)"
      "s' = s\<lparr> lastSentTimestamps := recent s w \<rparr>" "w' = w"
  | emailId emailDetails rest e n where
      "length (recent s w) < rateLimit s" "emailQueue s = (emailId, emailDetails) # rest"
      "r = Inl e" "n \<le> maxRetries s"
      "trace w' = trace w @ backoffTrace (currentProviderIndex s) emailDetails 0 n"
      "clock w \<le> clock w'"
      "lastSentTimestamps s' = recent s w" "emailQueue s' = rest"
      "sentEmails s' = sentEmails s" "status s' = status s"
  | emailId emailDetails rest st n where
      "length (recent s w) < rateLimit s" "emailQueue s = (emailId, emailDetails) # rest"
      "r = Inr ()" "success st" "n \<le> maxRetries s"
      "trace w' = trace w @ backoffTrace (currentProviderIndex s) emailDetails 0 n
                    @ [TimestampPushed (clock w'), StatusSet emailId st]"
      "clock w \<le> clock w'"
      "lastSentTimestamps s' = recent s w @ [clock w']" "emailQueue s' = rest"
      "sentEmails s' = insert emailId (sentEmails s)" "status s' = (status s)(emailId \<mapsto> st)"
  | emailId emailDetails rest st n where
      "length (recent s w) < rateLimit s" "emailQueue s = (emailId, emailDetails) # rest"
      "r = Inr ()" "\<not> success st" "n \<le> maxRetries s"
      "trace w' = trace w @ backoffTrace (currentProviderIndex s) emailDetails 0 n
                    @ [StatusSet emailId st]"
      "clock w \<le> clock w'"
      "lastSentTimestamps s' = recent s w" "emailQueue s' = rest"
      "sentEmails s' = sentEmails s" "status s' = (status s)(emailId \<mapsto> st)"
  using assms
proof (cases rule: drainStep_cases)
  case limited
  then show ?thesis by (rule that(1))
next
  case empty
  then show ?thesis by (rule that(2))
next
  case (thrown emailId emailDetails rest e)
  let ?s2 = "s\<lparr> lastSentTimestamps := recent s w, emailQueue := rest \<rparr>"
  from trySendWithRetries_trace[OF thrown(3)] obtain n where
    n: "n \<le> maxRetries s" "trace w' = trace w @ backoffTrace (currentProviderIndex s) emailDetails 0 n"
    by auto
  note f = trySendWithRetries_fields[OF thrown(3)] and c = trySendWithRetries_frame(3)[OF thrown(3)]
  show ?thesis
    using thrown(1,2,4) n c f by (intro that(3)[of emailId emailDetails rest e n]) simp_all
next
  case (sent emailId emailDetails rest st s3 w3)
  from trySendWithRetries_trace[OF sent(3)] obtain n where
    n: "n \<le> maxRetries s" "trace w3 = trace w @ backoffTrace (currentProviderIndex s) emailDetails 0 n"
    by auto
  note f = trySendWithRetries_fields[OF sent(3)] and c = trySendWithRetries_frame(3)[OF sent(3)]
  show ?thesis
    using sent(1,2,4,5,6,7) n c f
    by (intro that(4)[of emailId emailDetails rest st n]) (simp_all add: Date_now_def)
next
  case (failed emailId emailDetails rest st s3 w3)
  from trySendWithRetries_trace[OF failed(3)] obtain n where
    n: "n \<le> maxRetries s" "trace w3 = trace w @ backoffTrace (currentProviderIndex s) emailDetails 0 n"
    by auto
  note f = trySendWithRetries_fields[OF failed(3)] and c = trySendWithRetries_frame(3)[OF failed(3)]
  show ?thesis
    using failed(1,2,4,5,6,7) n c f
    by (intro that(5)[of emailId emailDetails rest st n]) simp_all
qed

lemma processQueue_induct [consumes 1, case_names drained raised iteration]:
  assumes run: "processQueue s w = Some y"
    and drained: "\<And>s w. emailQueue s = [] \<Longrightarrow> P s w (Inr Undefined, s, w)"
    and raised: "\<And>s w e s' w'. emailQueue s \<noteq> [] \<Longrightarrow> drainStep s w = (Inl e, s', w') \<Longrightarrow>
                   P s w (Inl e, s', w')"
    and iteration: "\<And>s w s1 w1 y. emailQueue s \<noteq> [] \<Longrightarrow> drainStep s w = (Inr (), s1, w1) \<Longrightarrow>
                   processQueue s1 w1 = Some y \<Longrightarrow> P s1 w1 y \<Longrightarrow> P s w y"
  shows "P s w y"
proof -
  have "processQueue s w = Some y \<and> P s w y"
    using run
  proof (induction s w y rule: processQueue.raw_induct[rotated 1, consumes 1, case_names body])
    case (body pq s w y)
    note ih = body(1) and unfolded = body(2)
    show ?case
    proof (cases "emailQueue s = []")
      case True
      with unfolded have "y = (Inr Undefined, s, w)" by simp
      with True drained[OF True, of w] show ?thesis by (simp add: processQueue.simps)
    next
      case False
      obtain r s1 w1 where step: "drainStep s w = (r, s1, w1)" by (metis prod_cases3)
      show ?thesis
      proof (cases r)
        case (Inl e)
        with unfolded False step have "y = (Inl e, s1, w1)" by simp
        with False step Inl raised[OF False, of w e s1 w1] show ?thesis
          by (simp add: processQueue.simps[of s w])
      next
        case (Inr u)
        with unfolded False step have "pq s1 w1 = Some y" by simp
        from ih[OF this] have rec: "processQueue s1 w1 = Some y" and p: "P s1 w1 y" by simp_all
        from step Inr have step': "drainStep s w = (Inr (), s1, w1)" by simp
        from iteration[OF False step' rec p] rec False step' show ?thesis
          by (simp add: processQueue.simps[of s w])
      qed
    qed
  qed
  then show ?thesis by simp
qed

section \<open>The set of sent emails\<close>





lemma fixture_drain_delivers:
  "drainStep ((new_EmailService [alwaysDelivers ''P1''] 3 5)\<lparr> emailQueue := [(''m1'', ())] \<rparr>) world0 =
     (Inr (),
       \<lparr> providers = [alwaysDelivers ''P1''], currentProviderIndex = 0, maxRetries = 3, rateLimit = 5,
         status = [''m1'' \<mapsto> \<lparr> success = True, message = ''Email sent successfully.'' \<rparr>],
         sentEmails = {''m1''}, emailQueue = [], lastSentTimestamps = [0] \<rparr>,
       \<lparr> clock = 0, awaited = 1, lag = (\<lambda>k. 0),
         trace = [ProviderCall 0 (), TimestampPushed 0,
                  StatusSet ''m1'' \<lparr> success = True, message = ''Email sent successfully.'' \<rparr>] \<rparr>)"
  by (simp add: drainStep_def Date_now_def
      trySendWithRetries_def trySendLoop.simps new_EmailService_def
      alwaysDelivers_def world0_def callProvider_def caught_def)

lemma fixture_reach_delivered:
  "reach
       \<lparr> providers = [alwaysDelivers ''P1''], currentProviderIndex = 0, maxRetries = 3, rateLimit = 5,
         status = [''m1'' \<mapsto> \<lparr> success = True, message = ''Email sent successfully.'' \<rparr>],
         sentEmails = {''m1''}, emailQueue = [], lastSentTimestamps = [0] \<rparr>
       \<lparr> clock = 0, awaited = 1, lag = (\<lambda>k. 0),
         trace = [ProviderCall 0 (), TimestampPushed 0,
                  StatusSet ''m1'' \<lparr> success = True, message = ''Email sent successfully.'' \<rparr>] \<rparr>"
proof -
  have "reach (new_EmailService [alwaysDelivers ''P1''] 3 5) world0"
    by (rule reach.init) (simp add: world0_def)
  then have "reach ((new_EmailService [alwaysDelivers ''P1''] 3 5)
     \<lparr> emailQueue := emailQueue (new_EmailService [alwaysDelivers ''P1''] 3 5) @ [(''m1'', ())] \<rparr>) world0"
    by (rule reach.push) (simp add: new_EmailService_def)
  then have "reach ((new_EmailService [alwaysDelivers ''P1''] 3 5)\<lparr> emailQueue := [(''m1'', ())] \<rparr>) world0"
    by (simp add: new_EmailService_def)
  then show ?thesis
    by (rule reach.iterate[OF _ _ fixture_drain_delivers]) simp
qed


section \<open>The drain loop returns\<close>

lemma reach_processQueue_aux:
  "processQueue s w = Some y \<Longrightarrow> reach s w \<longrightarrow> reach (fst (snd y)) (snd (snd y))"
proof (induction rule: processQueue_induct)
  case (drained s w)
  then show ?case by simp
next
  case (raised s w e s' w')
  then show ?case using reach.iterate by fastforce
next
  case (iteration s w s1 w1 y)
  then show ?case using reach.iterate by blast
qed

lemma reach_sendEmail:
  assumes "sendEmail emailId d s w = Some y" and "reach s w"
  shows "reach (fst (snd y)) (snd (snd y))"
proof (cases "emailId \<in> sentEmails s")
  case True
  with assms show ?thesis by (auto simp: sendEmail_def)
next
  case False
  with assms(1) have "processQueue (s\<lparr> emailQueue := emailQueue s @ [(emailId, d)] \<rparr>) w = Some y"
    by (simp add: sendEmail_def)
  moreover have "reach (s\<lparr> emailQueue := emailQueue s @ [(emailId, d)] \<rparr>) w"
    using assms(2) False by (rule reach.push)
  ultimately show ?thesis using reach_processQueue_aux by blast
qed

lemma expiry_prune_le:
  "c \<le> c' \<Longrightarrow> expiry c' (filter (\<lambda>t. c - t < 60000) L) \<le> expiry c L"
  by (induction L) (auto simp: expiry_def)

lemma expiry_prune_less:
  "c < c' \<Longrightarrow> filter (\<lambda>t. c - t < 60000) L \<noteq> [] \<Longrightarrow>
   expiry c' (filter (\<lambda>t. c - t < 60000) L) < expiry c L"
proof (induction L)
  case Nil
  then show ?case by simp
next
  case (Cons t L)
  show ?case
  proof (cases "c - t < 60000")
    case True
    have "expiry c' (filter (\<lambda>t. c - t < 60000) L) \<le> expiry c L"
      using Cons.prems(1) by (intro expiry_prune_le) simp
    moreover have "nat (t + 60000 - c') < nat (t + 60000 - c)"
      using True Cons.prems(1) by simp
    ultimately show ?thesis using True by (simp add: expiry_def)
  next
    case False
    with Cons show ?thesis by (simp add: expiry_def)
  qed
qed

lemma processQueue_terminates:
  fixes s :: "'d EmailService"
  shows "0 < rateLimit s \<Longrightarrow> \<exists>y. processQueue s w = Some y"
proof -
  have "\<forall>(s :: 'd EmailService) w. length (emailQueue s) = n \<and> expiry (clock w) (lastSentTimestamps s) = m \<and>
               0 < rateLimit s \<longrightarrow> (\<exists>y. processQueue s w = Some y)" for n m
  proof (induction n arbitrary: m rule: less_induct)
    case (less n)
    note shorter = less.IH
    show ?case
    proof (induction m rule: less_induct)
      case (less m)
      note sooner = less.IH
      show ?case
      proof (intro allI impI)
        fix s :: "'d EmailService" and w :: "'d world"
        assume a: "length (emailQueue s) = n \<and> expiry (clock w) (lastSentTimestamps s) = m \<and>
               0 < rateLimit s"
        show "\<exists>y. processQueue s w = Some y"
        proof (cases "emailQueue s = []")
          case True
          then show ?thesis by (simp add: processQueue.simps[of s w])
        next
          case False
          obtain r s1 w1 where step: "drainStep s w = (r, s1, w1)" by (metis prod_cases3)
          show ?thesis
          proof (cases r)
            case (Inl e)
            with False step show ?thesis by (simp add: processQueue.simps[of s w])
          next
            case (Inr u)
            with False step have unfold: "processQueue s w = processQueue s1 w1"
              by (simp add: processQueue.simps[of s w])
            note rl = drainStep_frame(3)[OF step]
            have "\<exists>y. processQueue s1 w1 = Some y"
              using step
            proof (cases rule: drainStep_effect)
              case limited
              have rec: "recent s w = filter (\<lambda>t. clock w - t < 60000) (lastSentTimestamps s)"
                by (simp add: recent_def Date_now_def)
              have later: "clock w < clock w1" using limited(4) by (simp add: sleep_def timerDelay_def)
              have "recent s w \<noteq> []" using limited(1) a by auto
              with expiry_prune_less[OF later, of "lastSentTimestamps s"] rec limited(3) a
              have lt: "expiry (clock w1) (lastSentTimestamps s1) < m" by simp
              have "length (emailQueue s1) = n" using limited(3) a by simp
              with sooner[OF lt] rl a show ?thesis by simp
            next
              case empty
              with Inr show ?thesis by simp
            next
              case (thrown emailId emailDetails rest e n)
              with Inr show ?thesis by simp
            next
              case (sent emailId emailDetails rest st k)
              then have "length (emailQueue s1) < n" using a by simp
              from shorter[OF this, of "expiry (clock w1) (lastSentTimestamps s1)"] rl a
              show ?thesis by simp
            next
              case (failed emailId emailDetails rest st k)
              then have "length (emailQueue s1) < n" using a by simp
              from shorter[OF this, of "expiry (clock w1) (lastSentTimestamps s1)"] rl a
              show ?thesis by simp
            qed
            with unfold show ?thesis by simp
          qed
        qed
      qed
    qed
  qed
  then show "0 < rateLimit s \<Longrightarrow> \<exists>y. processQueue s w = Some y" by blast
qed

lemma sendEmail_returns:
  "0 < rateLimit s \<Longrightarrow> \<exists>y. sendEmail emailId d s w = Some y"
  using processQueue_terminates[of "s\<lparr> emailQueue := emailQueue s @ [(emailId, d)] \<rparr>" w]
  by (simp add: sendEmail_def)

section \<open>Order of resolution\<close>

lemma drainStep_extends:
  assumes "drainStep s w = (r, s', w')"
  shows "\<exists>evs. trace w' = trace w @ evs"
  using assms
  by (cases rule: drainStep_effect) (auto simp: sleep_def timerDelay_def)

lemma drainStep_fifo:
  assumes step: "drainStep s w = (Inr (), s', w')"
  shows "\<exists>evs. trace w' = trace w @ evs \<and>
               statusIds evs @ map fst (emailQueue s') = map fst (emailQueue s)"
  using step
proof (cases rule: drainStep_effect)
  case limited
  then show ?thesis by (intro exI[of _ "[Slept 1000]"]) (simp add: sleep_def timerDelay_def)
next
  case empty
  then show ?thesis by simp
next
  case (thrown emailId emailDetails rest e n)
  then show ?thesis by simp
next
  case (sent emailId emailDetails rest st n)
  then show ?thesis
    by (intro exI[of _ "backoffTrace (currentProviderIndex s) emailDetails 0 n
                    @ [TimestampPushed (clock w'), StatusSet emailId st]"])
       (simp add: statusIds_append statusIds_backoffTrace)
next
  case (failed emailId emailDetails rest st n)
  then show ?thesis
    by (intro exI[of _ "backoffTrace (currentProviderIndex s) emailDetails 0 n
                    @ [StatusSet emailId st]"])
       (simp add: statusIds_append statusIds_backoffTrace)
qed

lemma processQueue_fifo:
  "processQueue s w = Some y \<Longrightarrow>
   \<exists>evs. trace (snd (snd y)) = trace w @ evs \<and>
         (\<forall>v. fst y = Inr v \<longrightarrow>
            v = Undefined \<and> statusIds evs = map fst (emailQueue s) \<and>
            emailQueue (fst (snd y)) = [])"
proof (induction rule: processQueue_induct)
  case (drained s w)
  then show ?case by simp
next
  case (raised s w e s' w')
  from drainStep_extends[OF raised(2)] show ?case by simp
next
  case (iteration s w s1 w1 y)
  from drainStep_fifo[OF iteration(2)] obtain e1 where
    e1: "trace w1 = trace w @ e1" "statusIds e1 @ map fst (emailQueue s1) = map fst (emailQueue s)"
    by blast
  from iteration(4) obtain e2 where
    e2: "trace (snd (snd y)) = trace w1 @ e2"
      "\<forall>v. fst y = Inr v \<longrightarrow>
            v = Undefined \<and> statusIds e2 = map fst (emailQueue s1) \<and>
            emailQueue (fst (snd y)) = []"
    by blast
  from e1 e2 show ?case
    by (intro exI[of _ "e1 @ e2"]) (auto simp: statusIds_append)
qed

text \<open>
  A drain loop that runs alone. An iteration on a non-empty queue either is rate-limited,
  and then pops nothing and only waits, or pops exactly the head of the queue; when it ends
  normally, all its provider calls carry the payload of the head, and it ends with the
  recording of the status of the head, so the head is fully resolved before the next
  entry is popped. A \<open>processQueue\<close> that returns has emptied the queue and recorded the
  statuses in the order of the queue: the status of an entry enqueued before another is
  recorded before the status of the other. With the cursor inside the provider list and
  a positive \<open>rateLimit\<close>, \<open>processQueue\<close> does return, and does so normally.
\<close>

theorem fifo_resolution:
  "(drainStep s w = (r, s', w') \<and> emailQueue s \<noteq> [] \<longrightarrow>
      (emailQueue s' = emailQueue s \<and> since w w' = [Slept 1000] \<or>
       emailQueue s' = tl (emailQueue s) \<and>
         (r = Inr () \<longrightarrow>
            (\<exists>n st. calls (since w w') =
                       replicate n (currentProviderIndex s, snd (hd (emailQueue s))) \<and>
                    statusIds (since w w') = [fst (hd (emailQueue s))] \<and>
                    last (since w w') = StatusSet (fst (hd (emailQueue s))) st \<and>
                    status s' (fst (hd (emailQueue s))) = Some st)))) \<and>
   (processQueue s w = Some (Inr v, s', w') \<longrightarrow>
      emailQueue s' = [] \<and> statusIds (since w w') = map fst (emailQueue s)) \<and>
   (cursorOk s \<and> 0 < rateLimit s \<longrightarrow>
      (\<exists>r2 s2 w2. processQueue s w = Some (r2, s2, w2) \<and>
          (r2 = Inr Undefined \<and> emailQueue s2 = [] \<and>
             statusIds (since w w2) = map fst (emailQueue s) \<or>
           r2 = Inl (TypeError MessageOfNullish))))"
proof -
  have one: "emailQueue s' = emailQueue s \<and> since w w' = [Slept 1000] \<or>
       emailQueue s' = tl (emailQueue s) \<and>
         (r = Inr () \<longrightarrow>
            (\<exists>n st. calls (since w w') =
                       replicate n (currentProviderIndex s, snd (hd (emailQueue s))) \<and>
                    statusIds (since w w') = [fst (hd (emailQueue s))] \<and>
                    last (since w w') = StatusSet (fst (hd (emailQueue s))) st \<and>
                    status s' (fst (hd (emailQueue s))) = Some st))"
    if step: "drainStep s w = (r, s', w')" and ne: "emailQueue s \<noteq> []"
    using step
  proof (cases rule: drainStep_effect)
    case limited
    then show ?thesis by (simp add: since_def sleep_def timerDelay_def)
  next
    case empty
    with ne show ?thesis by simp
  next
    case (thrown emailId emailDetails rest e n)
    then show ?thesis by simp
  next
    case (sent emailId emailDetails rest st n)
    from since_append[OF sent(6)] sent(2,9,11) show ?thesis
      by (intro disjI2 conjI impI exI[of _ n] exI[of _ st])
         (simp_all add: calls_append calls_backoffTrace statusIds_append statusIds_backoffTrace)
  next
    case (failed emailId emailDetails rest st n)
    from since_append[OF failed(6)] failed(2,9,11) show ?thesis
      by (intro disjI2 conjI impI exI[of _ n] exI[of _ st])
         (simp_all add: calls_append calls_backoffTrace statusIds_append statusIds_backoffTrace)
  qed
  have whole: "emailQueue s' = [] \<and> statusIds (since w w') = map fst (emailQueue s)"
    if run: "processQueue s w = Some (Inr v, s', w')"
  proof -
    from processQueue_fifo[OF run] obtain evs where
      evs: "trace w' = trace w @ evs"
        "statusIds evs = map fst (emailQueue s) \<and> emailQueue s' = []"
      by auto
    with since_append[OF evs(1)] show ?thesis by simp
  qed
  have total: "\<exists>r2 s2 w2. processQueue s w = Some (r2, s2, w2) \<and>
          (r2 = Inr Undefined \<and> emailQueue s2 = [] \<and>
             statusIds (since w w2) = map fst (emailQueue s) \<or>
           r2 = Inl (TypeError MessageOfNullish))"
    if ok: "cursorOk s" and rl: "0 < rateLimit s"
  proof -
    from processQueue_terminates[OF rl] obtain y where y: "processQueue s w = Some y" by blast
    obtain r2 s2 w2 where y': "y = (r2, s2, w2)" by (cases y) auto
    from processQueue_cursorOk[OF y ok] y'
    have r: "r2 = Inr Undefined \<or> r2 = Inl (TypeError MessageOfNullish)" by auto
    from processQueue_fifo[OF y] y' obtain evs where
      evs: "trace w2 = trace w @ evs"
        "\<forall>v. r2 = Inr v \<longrightarrow>
           v = Undefined \<and> statusIds evs = map fst (emailQueue s) \<and> emailQueue s2 = []"
      by auto
    with since_append[OF evs(1)] y y' r show ?thesis by auto
  qed
  from one whole total show ?thesis by blast
qed


lemma fixture_two_messages:
  "processQueue ((new_EmailService [alwaysDelivers ''P1''] 3 5)
                   \<lparr> emailQueue := [(''A'', ()), (''B'', ())] \<rparr>) world0 =
     Some (Inr Undefined,
       \<lparr> providers = [alwaysDelivers ''P1''], currentProviderIndex = 0, maxRetries = 3, rateLimit = 5,
         status = [''A'' \<mapsto> \<lparr> success = True, message = ''Email sent successfully.'' \<rparr>,
                   ''B'' \<mapsto> \<lparr> success = True, message = ''Email sent successfully.'' \<rparr>],
         sentEmails = {''B'', ''A''}, emailQueue = [], lastSentTimestamps = [0, 0] \<rparr>,
       \<lparr> clock = 0, awaited = 2, lag = (\<lambda>k. 0),
         trace = [ProviderCall 0 (), TimestampPushed 0,
                  StatusSet ''A'' \<lparr> success = True, message = ''Email sent successfully.'' \<rparr>,
                  ProviderCall 0 (), TimestampPushed 0,
                  StatusSet ''B'' \<lparr> success = True, message = ''Email sent successfully.'' \<rparr>] \<rparr>)"
  by (simp add: processQueue.simps drainStep_def Date_now_def
      trySendWithRetries_def trySendLoop.simps new_EmailService_def
      alwaysDelivers_def world0_def callProvider_def caught_def)

theorem fifo_resolution_witness:
  "statusIds (since world0
       \<lparr> clock = 0, awaited = 2, lag = (\<lambda>k. 0),
         trace = [ProviderCall 0 (), TimestampPushed 0,
                  StatusSet ''A'' \<lparr> success = True, message = ''Email sent successfully.'' \<rparr>,
                  ProviderCall 0 (), TimestampPushed 0,
                  StatusSet ''B'' \<lparr> success = True, message = ''Email sent successfully.'' \<rparr>] \<rparr>)
   = map fst [(''A'', ()), (''B'', ())]"
proof -
  note inst = fifo_resolution[of
      "(new_EmailService [alwaysDelivers ''P1''] 3 5)\<lparr> emailQueue := [(''A'', ()), (''B'', ())] \<rparr>"
      world0 _ _ _ Undefined, THEN conjunct2, THEN conjunct1, rule_format,
      OF fixture_two_messages]
  then show ?thesis by (simp add: new_EmailService_def)
qed

section \<open>The rate limiter\<close>

lemma filter_recent_later:
  "c \<le> c' \<Longrightarrow>
   filter (\<lambda>t. c' - t < 60000) (filter (\<lambda>t. c - t < 60000) xs)
     = filter (\<lambda>t::int. c' - t < 60000) xs"
  by (induction xs) auto

lemma ledgerOk_later:
  assumes ok: "ledgerOk L H c cap" and le: "c \<le> c'"
  shows "ledgerOk L H c' cap"
proof -
  from ok have past: "list_all (\<lambda>t. t \<le> c) H"
    and agree: "filter (\<lambda>t. c - t < 60000) L = filter (\<lambda>t. c - t < 60000) H"
    and win: "\<forall>a. inWindow a H \<le> cap"
    by (simp_all add: ledgerOk_def)
  have past': "list_all (\<lambda>t. t \<le> c') H"
    using past le by (induction H) auto
  have "filter (\<lambda>t. c' - t < 60000) L
        = filter (\<lambda>t. c' - t < 60000) (filter (\<lambda>t. c - t < 60000) L)"
    using filter_recent_later[OF le] by simp
  also have "\<dots> = filter (\<lambda>t. c' - t < 60000) (filter (\<lambda>t. c - t < 60000) H)"
    using agree by simp
  also have "\<dots> = filter (\<lambda>t. c' - t < 60000) H"
    using filter_recent_later[OF le] by simp
  finally show ?thesis using past' win by (simp add: ledgerOk_def)
qed

lemma ledgerOk_prune:
  assumes ok: "ledgerOk L H c cap" and le: "c \<le> c'"
  shows "ledgerOk (filter (\<lambda>t. c - t < 60000) L) H c' cap"
proof -
  have "ledgerOk (filter (\<lambda>t. c - t < 60000) L) H c cap"
    using ok by (simp add: ledgerOk_def)
  then show ?thesis using le by (rule ledgerOk_later)
qed

lemma inWindow_bound:
  assumes past: "list_all (\<lambda>t. t \<le> c) H" and le: "c \<le> c'"
    and inside: "a \<le> c'" "c' < a + 60000"
  shows "inWindow a H \<le> length (filter (\<lambda>t. c - t < 60000) H)"
  using past unfolding inWindow_def
proof (induction H)
  case Nil
  then show ?case by simp
next
  case (Cons t H)
  then show ?case using le inside by auto
qed

lemma ledgerOk_push:
  assumes ok: "ledgerOk L H c cap" and le: "c \<le> c'"
    and room: "length (filter (\<lambda>t. c - t < 60000) L) < cap"
  shows "ledgerOk (filter (\<lambda>t. c - t < 60000) L @ [c']) (H @ [c']) c' cap"
proof -
  from ok have past: "list_all (\<lambda>t. t \<le> c) H"
    and agree: "filter (\<lambda>t. c - t < 60000) L = filter (\<lambda>t. c - t < 60000) H"
    and win: "\<forall>a. inWindow a H \<le> cap"
    by (simp_all add: ledgerOk_def)
  from ledgerOk_prune[OF ok le]
  have agree': "filter (\<lambda>t. c' - t < 60000) (filter (\<lambda>t. c - t < 60000) L)
                = filter (\<lambda>t. c' - t < 60000) H"
    and past': "list_all (\<lambda>t. t \<le> c') H"
    by (simp_all add: ledgerOk_def)
  have w: "inWindow a (H @ [c']) \<le> cap" for a
  proof (cases "a \<le> c' \<and> c' < a + 60000")
    case True
    then have "inWindow a H \<le> length (filter (\<lambda>t. c - t < 60000) H)"
      using inWindow_bound[OF past le] by blast
    also have "\<dots> < cap" using room agree by simp
    finally show ?thesis using True by (simp add: inWindow_def)
  next
    case False
    then have "inWindow a (H @ [c']) = inWindow a H" by (auto simp: inWindow_def)
    with win show ?thesis by simp
  qed
  from past' agree' w show ?thesis by (simp add: ledgerOk_def)
qed

lemma drainStep_ledgerOk:
  assumes step: "drainStep s w = (r, s', w')"
    and ok: "ledgerOk (lastSentTimestamps s) (pushedAt (trace w)) (clock w) (rateLimit s)"
  shows "ledgerOk (lastSentTimestamps s') (pushedAt (trace w')) (clock w') (rateLimit s')"
proof -
  note rl = drainStep_frame(3)[OF step]
  have rec: "recent s w = filter (\<lambda>t. clock w - t < 60000) (lastSentTimestamps s)"
    by (simp add: recent_def Date_now_def)
  show ?thesis
    using step
  proof (cases rule: drainStep_effect)
    case limited
    have "clock w \<le> clock w'" using limited(4) by (simp add: sleep_def timerDelay_def)
    from ledgerOk_prune[OF ok this] limited show ?thesis
      by (simp add: rec sleep_def timerDelay_def pushedAt_append)
  next
    case empty
    from ledgerOk_prune[OF ok order_refl] empty show ?thesis by (simp add: rec)
  next
    case (thrown emailId emailDetails rest e n)
    from ledgerOk_prune[OF ok thrown(6)] thrown(5,7) rl show ?thesis
      by (simp add: rec pushedAt_append pushedAt_backoffTrace)
  next
    case (sent emailId emailDetails rest st n)
    from sent(1) have "length (filter (\<lambda>t. clock w - t < 60000) (lastSentTimestamps s)) < rateLimit s"
      by (simp add: rec)
    from ledgerOk_push[OF ok sent(7) this] sent(6,8) rl show ?thesis
      by (simp add: rec pushedAt_append pushedAt_backoffTrace)
  next
    case (failed emailId emailDetails rest st n)
    from ledgerOk_prune[OF ok failed(7)] failed(6,8) rl show ?thesis
      by (simp add: rec pushedAt_append pushedAt_backoffTrace)
  qed
qed

lemma reach_ledgerOk:
  "reach s w \<Longrightarrow>
   ledgerOk (lastSentTimestamps s) (pushedAt (trace w)) (clock w) (rateLimit s)"
proof (induction rule: reach.induct)
  case (init w ps mr rl)
  then show ?case by (simp add: new_EmailService_def ledgerOk_def inWindow_def)
next
  case (push s w emailId emailDetails)
  then show ?case by simp
next
  case (iterate s w r s' w')
  from drainStep_ledgerOk[OF iterate(3) iterate(4)] show ?case .
next
  case (idle s w dt)
  have "clock w \<le> clock w + int dt" by simp
  from ledgerOk_later[OF idle(2) this] show ?case by simp
qed


text \<open>
  A drain loop that runs alone. An iteration first prunes the ledger to the timestamps
  less than 60000 ms old. When the pruned ledger holds at least \<open>rateLimit\<close> timestamps, the
  iteration does nothing but store the pruned ledger and wait 1000 ms, so the loop
  checks again with the same queue. Otherwise (the count is strictly below the cap) the
  new ledger is the pruned one followed by the timestamps pushed in the iteration, which
  are none, or the single current time, pushed just before a successful status is
  recorded. Provider calls happen only in an admitted iteration. In every state the
  service goes through when one drain loop runs at a time, no window of 60 seconds holds
  more pushed timestamps than \<open>rateLimit\<close>.
\<close>

theorem rate_limit_window:
  "(drainStep s w = (r, s', w') \<longrightarrow>
      (if rateLimit s \<le> length (recent s w)
       then r = Inr () \<and> s' = s\<lparr> lastSentTimestamps := recent s w \<rparr> \<and> w' = sleep 1000 w
       else lastSentTimestamps s' = recent s w @ pushedAt (since w w') \<and>
            (pushedAt (since w w') = [] \<or>
             (\<exists>emailId st. success st \<and> pushedAt (since w w') = [clock w'] \<and>
                 last (since w w') = StatusSet emailId st))) \<and>
      (calls (since w w') \<noteq> [] \<longrightarrow> length (recent s w) < rateLimit s)) \<and>
   (reach s w \<longrightarrow> (\<forall>a. inWindow a (pushedAt (trace w)) \<le> rateLimit s))"
proof -
  have one: "(if rateLimit s \<le> length (recent s w)
       then r = Inr () \<and> s' = s\<lparr> lastSentTimestamps := recent s w \<rparr> \<and> w' = sleep 1000 w
       else lastSentTimestamps s' = recent s w @ pushedAt (since w w') \<and>
            (pushedAt (since w w') = [] \<or>
             (\<exists>emailId st. success st \<and> pushedAt (since w w') = [clock w'] \<and>
                 last (since w w') = StatusSet emailId st))) \<and>
      (calls (since w w') \<noteq> [] \<longrightarrow> length (recent s w) < rateLimit s)"
    if step: "drainStep s w = (r, s', w')"
    using step
  proof (cases rule: drainStep_effect)
    case limited
    then show ?thesis by (simp add: since_def sleep_def timerDelay_def)
  next
    case empty
    then show ?thesis by (simp add: since_def)
  next
    case (thrown emailId emailDetails rest e n)
    from since_append[OF thrown(5)] thrown(1,7) show ?thesis
      by (simp add: pushedAt_backoffTrace)
  next
    case (sent emailId emailDetails rest st n)
    from since_append[OF sent(6)] sent(1,4,8) show ?thesis
      by (auto simp: pushedAt_append pushedAt_backoffTrace)
  next
    case (failed emailId emailDetails rest st n)
    from since_append[OF failed(6)] failed(1,8) show ?thesis
      by (simp add: pushedAt_append pushedAt_backoffTrace)
  qed
  have all: "\<forall>a. inWindow a (pushedAt (trace w)) \<le> rateLimit s" if "reach s w"
    using reach_ledgerOk[OF that] by (simp add: ledgerOk_def)
  from one all show ?thesis by blast
qed

lemma fixture_limited:
  "drainStep \<lparr> providers = [alwaysDelivers ''P1''], currentProviderIndex = 0, maxRetries = 3,
              rateLimit = 1, status = Map.empty, sentEmails = {''m1''},
              emailQueue = [(''m2'', ())], lastSentTimestamps = [0] \<rparr>
            \<lparr> clock = 59000, awaited = 60, lag = (\<lambda>k. 0), trace = [] \<rparr>
   = (Inr (),
      \<lparr> providers = [alwaysDelivers ''P1''], currentProviderIndex = 0, maxRetries = 3,
              rateLimit = 1, status = Map.empty, sentEmails = {''m1''},
              emailQueue = [(''m2'', ())], lastSentTimestamps = [0] \<rparr>,
      \<lparr> clock = 60000, awaited = 61, lag = (\<lambda>k. 0), trace = [Slept 1000] \<rparr>)"
  by (simp add: drainStep_def Date_now_def sleep_def timerDelay_def)

theorem rate_limit_window_witness:
  "(\<forall>a. inWindow a (pushedAt [ProviderCall 0 (), TimestampPushed 0,
                  StatusSet ''m1'' \<lparr> success = True, message = ''Email sent successfully.'' \<rparr>])
        \<le> 5) \<and>
   sleep 1000 \<lparr> clock = 59000, awaited = 60, lag = (\<lambda>k. 0), trace = ([] :: unit event list) \<rparr>
     = \<lparr> clock = 60000, awaited = 61, lag = (\<lambda>k. 0), trace = [Slept 1000] \<rparr>"
proof -
  have a: "\<forall>a. inWindow a (pushedAt [ProviderCall 0 (), TimestampPushed 0,
                  StatusSet ''m1'' \<lparr> success = True, message = ''Email sent successfully.'' \<rparr>])
        \<le> 5"
    using rate_limit_window[of
       "\<lparr> providers = [alwaysDelivers ''P1''], currentProviderIndex = 0, maxRetries = 3, rateLimit = 5,
         status = [''m1'' \<mapsto> \<lparr> success = True, message = ''Email sent successfully.'' \<rparr>],
         sentEmails = {''m1''}, emailQueue = [], lastSentTimestamps = [0] \<rparr>"
       "\<lparr> clock = 0, awaited = 1, lag = (\<lambda>k. 0),
         trace = [ProviderCall 0 (), TimestampPushed 0,
                  StatusSet ''m1'' \<lparr> success = True, message = ''Email sent successfully.'' \<rparr>] \<rparr>"]
      fixture_reach_delivered
    by simp
  have b: "sleep 1000 \<lparr> clock = 59000, awaited = 60, lag = (\<lambda>k. 0), trace = ([] :: unit event list) \<rparr>
     = \<lparr> clock = 60000, awaited = 61, lag = (\<lambda>k. 0), trace = [Slept 1000] \<rparr>"
    using rate_limit_window[THEN conjunct1, rule_format, OF fixture_limited]
    by (simp add: recent_def Date_now_def)
  from a b show ?thesis by blast
qed

section \<open>A call that runs alone is one of the schedules\<close>

text \<open>
  The functions \<open>trySendLoop\<close>, \<open>drainStep\<close>, \<open>processQueue\<close> and \<open>sendEmail\<close>
  describe a call that no other call interrupts, and \<open>run\<close> describes calls that take
  turns at every \<^verbatim>\<open>await\<close>. They agree: whatever \<open>sendEmail\<close> returns for a call
  that runs alone, with the service and the world it leaves, is what a schedule produces
  in which this call is the only one in flight and every promise settles at the time the
  world of the lone call says.
\<close>

lemma run_append:
  "run (xs @ ys) sys = (case run xs sys of None \<Rightarrow> None | Some sys' \<Rightarrow> run ys sys')"
  by (induction xs arbitrary: sys) (auto split: option.splits)

lemma run_then:
  "run xs sys = Some mid \<Longrightarrow> run ys mid = Some sys' \<Longrightarrow> run (xs @ ys) sys = Some sys'"
  by (simp add: run_append)

lemma alone_park: "park 0 x (alone y) = alone x"
  by (cases x; cases y) (simp add: park_def alone_def)

lemma resume_alone:
  "clock w \<le> clock w2 \<Longrightarrow> w\<lparr> clock := clock w2 \<rparr> = w2 \<Longrightarrow>
   run [Resume (clock w2) 0] (alone (AwaitProvider emailId d a response, s, w))
     = Some (alone (afterReply emailId d a response s w2))"
  "clock w \<le> clock w2 \<Longrightarrow> w\<lparr> clock := clock w2 \<rparr> = w2 \<Longrightarrow> wake \<le> clock w2 \<Longrightarrow>
   run [Resume (clock w2) 0] (alone (AwaitBackoff emailId d a wake, s, w))
     = Some (alone (attemptFrom a emailId d s w2))"
  "clock w \<le> clock w2 \<Longrightarrow> w\<lparr> clock := clock w2 \<rparr> = w2 \<Longrightarrow>
   run [Resume (clock w2) 0] (alone (AwaitStatus emailId outcome, s, w))
     = Some (alone (afterStatus emailId outcome s w2))"
  "clock w \<le> clock w2 \<Longrightarrow> w\<lparr> clock := clock w2 \<rparr> = w2 \<Longrightarrow> wake \<le> clock w2 \<Longrightarrow>
   run [Resume (clock w2) 0] (alone (AwaitRateLimit wake, s, w))
     = Some (alone (loopFrom s w2))"
  using alone_park by (simp_all add: resume_def alone_def Let_def park_def split: prod.splits)

lemma trySendLoop_alone:
  "trySendLoop a emailId d s w = (r, s', w') \<Longrightarrow>
   \<exists>acts. run acts (alone (attemptFrom a emailId d s w))
            = Some (alone (AwaitStatus emailId r, s', w'))"
proof (induction "maxRetries s - a" arbitrary: a s w r s' w')
  case 0
  then have "\<not> a < maxRetries s" by simp
  with "0.prems" have "run [] (alone (attemptFrom a emailId d s w))
            = Some (alone (AwaitStatus emailId r, s', w'))"
    by (auto simp: trySendLoop_done attemptFrom_def)
  then show ?case by blast
next
  case (Suc m)
  then have lt: "a < maxRetries s" by simp
  note loop = Suc.prems
  show ?case
  proof (cases "currentProviderIndex s < length (providers s)")
    case False
    with lt loop have "run [] (alone (attemptFrom a emailId d s w))
            = Some (alone (AwaitStatus emailId r, s', w'))"
      by (auto simp: trySendLoop_undefined attemptFrom_def)
    then show ?thesis by blast
  next
    case inrange: True
    let ?p = "providers s ! currentProviderIndex s"
    let ?response = "provider_sendEmail ?p (awaited w) d"
    let ?w1 = "w\<lparr> clock := clock w + int (lag w (awaited w)), awaited := Suc (awaited w),
                   trace := trace w @ [ProviderCall (currentProviderIndex s) d] \<rparr>"
    let ?wa = "w\<lparr> awaited := Suc (awaited w),
                   trace := trace w @ [ProviderCall (currentProviderIndex s) d] \<rparr>"
    have cp: "callProvider ?p (currentProviderIndex s) d w = (?response, ?w1)"
      by (simp add: callProvider_def)
    have start: "attemptFrom a emailId d s w = (AwaitProvider emailId d a ?response, s, ?wa)"
      using lt inrange by (simp add: attemptFrom_def)
    have "clock ?wa \<le> clock ?w1" "?wa\<lparr> clock := clock ?w1 \<rparr> = ?w1" by simp_all
    from resume_alone(1)[OF this, of emailId d a ?response s]
    have first: "run [Resume (clock ?w1) 0] (alone (attemptFrom a emailId d s w))
          = Some (alone (afterReply emailId d a ?response s ?w1))"
      by (simp only: start)
    show ?thesis
    proof (cases "caught ?response")
      case None
      from trySendLoop_sent[OF lt inrange cp None, where emailId=emailId] loop
      have "(r, s', w') = (Inr \<lparr> success = True, message = ''Email sent successfully.'' \<rparr>, s, ?w1)"
        by simp
      moreover from None have "afterReply emailId d a ?response s ?w1
          = (AwaitStatus emailId (Inr \<lparr> success = True, message = ''Email sent successfully.'' \<rparr>),
             s, ?w1)"
        by (simp add: afterReply_def)
      ultimately have "run [Resume (clock ?w1) 0] (alone (attemptFrom a emailId d s w))
          = Some (alone (AwaitStatus emailId r, s', w'))"
        using first by (simp only: prod.inject)
      then show ?thesis by blast
    next
      case (Some e)
      show ?thesis
      proof (cases e)
        case Nullish
        with Some have c: "caught ?response = Some Nullish" by simp
        from trySendLoop_nullish[OF lt inrange cp c, where emailId=emailId] loop
        have "(r, s', w') = (Inl (TypeError MessageOfNullish), s, ?w1)" by simp
        moreover from c have "afterReply emailId d a ?response s ?w1
            = (AwaitStatus emailId (Inl (TypeError MessageOfNullish)), s, ?w1)"
          by (simp add: afterReply_def)
        ultimately have "run [Resume (clock ?w1) 0] (alone (attemptFrom a emailId d s w))
          = Some (alone (AwaitStatus emailId r, s', w'))"
          using first by (simp only: prod.inject)
        then show ?thesis by blast
      next
        case (Value err)
        with Some have c: "caught ?response = Some (Value err)" by simp
        show ?thesis
        proof (cases "Suc a < maxRetries s")
          case True
          let ?ms = "2 ^ Suc a * 100 :: nat"
          let ?w2 = "sleep ?ms ?w1"
          let ?wt = "?w1\<lparr> awaited := Suc (awaited ?w1), trace := trace ?w1 @ [Slept ?ms] \<rparr>"
          from trySendLoop_retry[OF True inrange cp c, where emailId=emailId] loop
          have rest: "trySendLoop (Suc a) emailId d s ?w2 = (r, s', w')" by simp
          have m: "m = maxRetries s - Suc a" using Suc.hyps(2) by simp
          from Suc.hyps(1)[OF m rest] obtain acts where
            acts: "run acts (alone (attemptFrom (Suc a) emailId d s ?w2))
                     = Some (alone (AwaitStatus emailId r, s', w'))"
            by blast
          have after: "afterReply emailId d a ?response s ?w1
              = (AwaitBackoff emailId d (Suc a) (clock ?w1 + int (timerDelay ?ms)), s, ?wt)"
            using c True by (simp add: afterReply_def startTimer_def)
          have "clock ?wt \<le> clock ?w2" "?wt\<lparr> clock := clock ?w2 \<rparr> = ?w2"
            "clock ?w1 + int (timerDelay ?ms) \<le> clock ?w2"
            by (simp_all add: sleep_def)
          from resume_alone(2)[OF this, of emailId d "Suc a" s]
          have second: "run [Resume (clock ?w2) 0] (alone (afterReply emailId d a ?response s ?w1))
              = Some (alone (attemptFrom (Suc a) emailId d s ?w2))"
            by (simp only: after)
          from run_then[OF run_then[OF first second] acts] show ?thesis by blast
        next
          case False
          show ?thesis
          proof (cases "switchProvider s")
            case (Inl e)
            with inrange show ?thesis by (auto simp: switchProvider_def split: if_splits)
          next
            case (Inr s2)
            from lt False c cp inrange Inr loop
            have rest: "trySendLoop (Suc a) emailId d s2 ?w1 = (r, s', w')"
              by (simp add: trySendLoop.simps[of a])
            from Inr have mr: "maxRetries s2 = maxRetries s"
              by (auto simp: switchProvider_def split: if_splits)
            have m: "m = maxRetries s2 - Suc a" using Suc.hyps(2) mr by simp
            from Suc.hyps(1)[OF m rest] obtain acts where
              acts: "run acts (alone (attemptFrom (Suc a) emailId d s2 ?w1))
                     = Some (alone (AwaitStatus emailId r, s', w'))"
              by blast
            have "afterReply emailId d a ?response s ?w1 = attemptFrom (Suc a) emailId d s2 ?w1"
              using c False Inr by (simp add: afterReply_def)
            with first have first': "run [Resume (clock ?w1) 0] (alone (attemptFrom a emailId d s w))
                = Some (alone (attemptFrom (Suc a) emailId d s2 ?w1))"
              by (simp only:)
            from run_then[OF first' acts] show ?thesis by blast
          qed
        qed
      qed
    qed
  qed
qed

lemma processQueue_alone:
  assumes "processQueue s w = Some y"
  shows "\<exists>acts. run acts (alone (loopFrom s w))
            = Some (alone (Settled (fst y), fst (snd y), snd (snd y)))"
  using assms
proof (induction rule: processQueue_induct)
  case (drained s w)
  then have "run [] (alone (loopFrom s w)) = Some (alone (Settled (Inr Undefined), s, w))"
    by (simp add: loopFrom_def)
  then show ?case by (metis fst_conv snd_conv)
next
  case (raised s w e s' w')
  from raised(2) show ?case
  proof (cases rule: drainStep_cases)
    case limited
    then show ?thesis by simp
  next
    case empty
    with raised(1) show ?thesis by simp
  next
    case (thrown emailId emailDetails rest e')
    let ?s2 = "s\<lparr> lastSentTimestamps := recent s w, emailQueue := rest \<rparr>"
    from thrown(3) have "trySendLoop 0 emailId emailDetails ?s2 w = (Inl e', s', w')"
      by (simp add: trySendWithRetries_def)
    from trySendLoop_alone[OF this] obtain acts where
      acts: "run acts (alone (attemptFrom 0 emailId emailDetails ?s2 w))
               = Some (alone (AwaitStatus emailId (Inl e'), s', w'))"
      by blast
    have start: "loopFrom s w = attemptFrom 0 emailId emailDetails ?s2 w"
      using thrown(1,2) by (simp add: loopFrom_def Let_def recent_def)
    have "clock w' \<le> clock w'" "w'\<lparr> clock := clock w' \<rparr> = w'" by simp_all
    from resume_alone(3)[OF this, of emailId "Inl e'" s']
    have last: "run [Resume (clock w') 0] (alone (AwaitStatus emailId (Inl e'), s', w'))
        = Some (alone (Settled (Inl e'), s', w'))"
      by (simp add: afterStatus_def)
    from run_then[OF acts last] start thrown(4) show ?thesis
      by (intro exI[of _ "acts @ [Resume (clock w') 0]"]) simp
  next
    case (sent emailId emailDetails rest st s3 w3)
    then show ?thesis by simp
  next
    case (failed emailId emailDetails rest st s3 w3)
    then show ?thesis by simp
  qed
next
  case (iteration s w s1 w1 y)
  from iteration(4) obtain rest where
    rest: "run rest (alone (loopFrom s1 w1))
             = Some (alone (Settled (fst y), fst (snd y), snd (snd y)))"
    by blast
  from iteration(2) show ?case
  proof (cases rule: drainStep_cases)
    case limited
    let ?wt = "w\<lparr> awaited := Suc (awaited w), trace := trace w @ [Slept 1000] \<rparr>"
    have start: "loopFrom s w = (AwaitRateLimit (clock w + int (timerDelay 1000)), s1, ?wt)"
      using iteration(1) limited
      by (simp add: loopFrom_def Let_def recent_def startTimer_def)
    have "clock ?wt \<le> clock w1" "?wt\<lparr> clock := clock w1 \<rparr> = w1"
      "clock w + int (timerDelay 1000) \<le> clock w1"
      using limited by (simp_all add: sleep_def)
    from resume_alone(4)[OF this, of s1]
    have first: "run [Resume (clock w1) 0] (alone (loopFrom s w)) = Some (alone (loopFrom s1 w1))"
      by (simp only: start)
    from run_then[OF first rest] show ?thesis by blast
  next
    case empty
    then show ?thesis by simp
  next
    case (thrown emailId emailDetails rest e)
    then show ?thesis by simp
  next
    case (sent emailId emailDetails rest' st s3 w3)
    let ?s2 = "s\<lparr> lastSentTimestamps := recent s w, emailQueue := rest' \<rparr>"
    from sent(3) have "trySendLoop 0 emailId emailDetails ?s2 w = (Inr st, s3, w3)"
      by (simp add: trySendWithRetries_def)
    from trySendLoop_alone[OF this] obtain acts where
      acts: "run acts (alone (attemptFrom 0 emailId emailDetails ?s2 w))
               = Some (alone (AwaitStatus emailId (Inr st), s3, w3))"
      by blast
    have start: "loopFrom s w = attemptFrom 0 emailId emailDetails ?s2 w"
      using sent(1,2) by (simp add: loopFrom_def Let_def recent_def)
    have "clock w3 \<le> clock w3" "w3\<lparr> clock := clock w3 \<rparr> = w3" by simp_all
    from resume_alone(3)[OF this, of emailId "Inr st" s3] sent(4,6,7)
    have next_one: "run [Resume (clock w3) 0] (alone (AwaitStatus emailId (Inr st), s3, w3))
        = Some (alone (loopFrom s1 w1))"
      by (simp add: afterStatus_def)
    from run_then[OF run_then[OF acts next_one] rest] start show ?thesis
      by auto
  next
    case (failed emailId emailDetails rest' st s3 w3)
    let ?s2 = "s\<lparr> lastSentTimestamps := recent s w, emailQueue := rest' \<rparr>"
    from failed(3) have "trySendLoop 0 emailId emailDetails ?s2 w = (Inr st, s3, w3)"
      by (simp add: trySendWithRetries_def)
    from trySendLoop_alone[OF this] obtain acts where
      acts: "run acts (alone (attemptFrom 0 emailId emailDetails ?s2 w))
               = Some (alone (AwaitStatus emailId (Inr st), s3, w3))"
      by blast
    have start: "loopFrom s w = attemptFrom 0 emailId emailDetails ?s2 w"
      using failed(1,2) by (simp add: loopFrom_def Let_def recent_def)
    have "clock w3 \<le> clock w3" "w3\<lparr> clock := clock w3 \<rparr> = w3" by simp_all
    from resume_alone(3)[OF this, of emailId "Inr st" s3] failed(4,6,7)
    have next_one: "run [Resume (clock w3) 0] (alone (AwaitStatus emailId (Inr st), s3, w3))
        = Some (alone (loopFrom s1 w1))"
      by (simp add: afterStatus_def)
    from run_then[OF run_then[OF acts next_one] rest] start show ?thesis
      by auto
  qed
qed

lemma sendEmail_alone:
  assumes "sendEmail emailId d s w = Some (r, s', w')"
  shows "\<exists>acts. run (Call (clock w) emailId d # acts) (boot s w)
            = Some \<lparr> service = s', env = w', tasks = [Settled r] \<rparr>"
proof (cases "emailId \<in> sentEmails s")
  case True
  with assms have "r = Inr (Obj \<lparr> success = True, message = ''Duplicate email prevented.'' \<rparr>)"
    "s' = s" "w' = w"
    by (simp_all add: sendEmail_def)
  with True have "run (Call (clock w) emailId d # []) (boot s w)
            = Some \<lparr> service = s', env = w', tasks = [Settled r] \<rparr>"
    by (simp add: call_def boot_def enrol_def)
  then show ?thesis by blast
next
  case False
  let ?s = "s\<lparr> emailQueue := emailQueue s @ [(emailId, d)] \<rparr>"
  from assms False have "processQueue ?s w = Some (r, s', w')" by (simp add: sendEmail_def)
  from processQueue_alone[OF this] obtain acts where
    acts: "run acts (alone (loopFrom ?s w)) = Some (alone (Settled r, s', w'))"
    by auto
  have "w\<lparr> clock := clock w \<rparr> = w" by simp
  with False have "call (clock w) emailId d (boot s w) = Some (alone (loopFrom ?s w))"
    by (cases "loopFrom ?s w") (simp add: call_def boot_def enrol_def alone_def Let_def)
  with acts have "run (Call (clock w) emailId d # acts) (boot s w)
            = Some \<lparr> service = s', env = w', tasks = [Settled r] \<rparr>"
    by (simp add: alone_def)
  then show ?thesis by blast
qed

section \<open>Calls of \<^verbatim>\<open>sendEmail\<close> that overlap\<close>

text \<open>
  \<^verbatim>\<open>sendEmail\<close> starts a drain loop on every call that is not a duplicate (line 35),
  also while the loop of an earlier call is suspended at an \<^verbatim>\<open>await\<close>. The loops then
  share the queue, the ledger and the cursor, and what holds of a loop that runs alone
  does not hold of them. The schedules below are those of two calls made without awaiting
  the first, as in \<^verbatim>\<open>Promise.all([s.sendEmail('A', a), s.sendEmail('B', b)])\<close>.

  When the second call is made after the first has settled, the second message is sent
  through the provider the cursor was moved to, in all its attempts.
\<close>

lemma calls_in_turn_keep_provider:
  "map_option (\<lambda>sys. (calls (trace (env sys)), tasks sys))
     (run [Call 0 ''A'' ''a'', Resume 0 0, Resume 200 0, Resume 200 0, Resume 200 0,
           Call 300 ''B'' ''b'', Resume 300 1, Resume 300 1]
        (boot (new_EmailService [alwaysRejects ''P1'', alwaysDelivers ''P2''] 2 5) world0))
   = Some ([(0, ''a''), (0, ''a''), (1, ''b'')],
           [Settled (Inr Undefined), Settled (Inr Undefined)])"
  by (simp add: stepping alwaysRejects_def alwaysDelivers_def)

text \<open>
  C2. Two providers, the first rejects and the second delivers, \<open>maxRetries = 2\<close>.
  Message \<open>A\<close> is submitted at time \<open>0\<close> and message \<open>B\<close> at time \<open>100\<close>, while \<open>A\<close>
  waits for its backoff. Both make their first call to the provider at index \<open>0\<close>. At
  time \<open>200\<close> the second attempt of \<open>A\<close> fails and \<open>A\<close> moves the cursor to \<open>1\<close>; at
  time \<open>300\<close> the second attempt of \<open>B\<close> looks the provider up again (line 70) and
  calls the provider at index \<open>1\<close>. The two calls of the one message \<open>B\<close> go to two
  providers, and \<open>B\<close> is delivered by a provider that was not current when its
  processing began.
\<close>

theorem overlapping_calls_change_provider:
  "map_option
     (\<lambda>sys. (calls (trace (env sys)), tasks sys,
             status (service sys) ''A'', status (service sys) ''B''))
     (run [Call 0 ''A'' ''a'', Resume 0 0, Call 100 ''B'' ''b'', Resume 100 1,
           Resume 200 0, Resume 200 0, Resume 200 0,
           Resume 300 1, Resume 300 1, Resume 300 1]
        (boot (new_EmailService [alwaysRejects ''P1'', alwaysDelivers ''P2''] 2 5) world0))
   = Some ([(0, ''a''), (0, ''b''), (0, ''a''), (1, ''b'')],
           [Settled (Inr Undefined), Settled (Inr Undefined)],
           Some \<lparr> success = False, message = ''All attempts failed.'' \<rparr>,
           Some \<lparr> success = True, message = ''Email sent successfully.'' \<rparr>)"
  by (simp add: stepping alwaysRejects_def alwaysDelivers_def)

text \<open>
  C3. The same two providers, \<open>maxRetries = 1\<close>, messages \<open>A\<close> and \<open>B\<close> submitted
  together. Both make their one call to the provider at index \<open>0\<close>. When \<open>A\<close> has
  exhausted its attempts the cursor is \<open>1\<close>; when \<open>B\<close> has exhausted its attempts,
  also against the provider at index \<open>0\<close>, the cursor is \<open>0\<close> again, not \<open>1\<close>. Both
  resolve as failures, and the next message, \<open>C\<close>, makes its first call to the provider
  at index \<open>0\<close>, the one that \<open>B\<close> has just exhausted, although there are two
  providers.
\<close>

theorem overlapping_exhaustions_return_cursor:
  "map_option (\<lambda>sys. (calls (trace (env sys)), currentProviderIndex (service sys)))
     (run [Call 0 ''A'' ''a'', Call 0 ''B'' ''b'', Resume 0 0]
        (boot (new_EmailService [alwaysRejects ''P1'', alwaysDelivers ''P2''] 1 5) world0))
   = Some ([(0, ''a''), (0, ''b'')], 1) \<and>
   map_option (\<lambda>sys. (calls (trace (env sys)), currentProviderIndex (service sys)))
     (run [Call 0 ''A'' ''a'', Call 0 ''B'' ''b'', Resume 0 0, Resume 0 1]
        (boot (new_EmailService [alwaysRejects ''P1'', alwaysDelivers ''P2''] 1 5) world0))
   = Some ([(0, ''a''), (0, ''b'')], 0) \<and>
   map_option
     (\<lambda>sys. (calls (trace (env sys)), currentProviderIndex (service sys), tasks sys,
             status (service sys) ''A'', status (service sys) ''B''))
     (run [Call 0 ''A'' ''a'', Call 0 ''B'' ''b'', Resume 0 0, Resume 0 1,
           Resume 0 0, Resume 0 1, Call 0 ''C'' ''c'']
        (boot (new_EmailService [alwaysRejects ''P1'', alwaysDelivers ''P2''] 1 5) world0))
   = Some ([(0, ''a''), (0, ''b''), (0, ''c'')], 0,
           [Settled (Inr Undefined), Settled (Inr Undefined),
            AwaitProvider ''C'' ''c'' 0 (Returns \<lparr> success = False, message = ''rejected'' \<rparr>)],
           Some \<lparr> success = False, message = ''All attempts failed.'' \<rparr>,
           Some \<lparr> success = False, message = ''All attempts failed.'' \<rparr>)"
  by (simp add: stepping alwaysRejects_def alwaysDelivers_def)

text \<open>
  C5. One provider that delivers, \<open>rateLimit = 1\<close>, messages \<open>A\<close> and \<open>B\<close> submitted
  together. Each loop finds the ledger empty (line 47) and sends its message before the
  other has pushed its timestamp (line 58). Both are delivered at time \<open>0\<close>: the ledger
  is \<open>[0, 0]\<close>, and the window of 60 seconds that starts at \<open>0\<close> holds two recorded
  sends under a cap of one.
\<close>

theorem overlapping_calls_exceed_rate_limit:
  "map_option
     (\<lambda>sys. (rateLimit (service sys), lastSentTimestamps (service sys),
             inWindow 0 (pushedAt (trace (env sys))), trace (env sys), tasks sys))
     (run [Call 0 ''A'' ''a'', Call 0 ''B'' ''b'', Resume 0 0, Resume 0 0, Resume 0 1, Resume 0 1]
        (boot (new_EmailService [alwaysDelivers ''P1''] 3 1) world0))
   = Some (1, [0, 0], 2,
           [ProviderCall 0 ''a'', ProviderCall 0 ''b'',
            TimestampPushed 0,
            StatusSet ''A'' \<lparr> success = True, message = ''Email sent successfully.'' \<rparr>,
            TimestampPushed 0,
            StatusSet ''B'' \<lparr> success = True, message = ''Email sent successfully.'' \<rparr>],
           [Settled (Inr Undefined), Settled (Inr Undefined)])"
  by (simp add: stepping alwaysDelivers_def inWindow_def)

text \<open>
  C7. One provider that fails its first call and delivers after, \<open>maxRetries = 3\<close>,
  message \<open>A\<close> submitted before message \<open>B\<close>. The loop of \<open>B\<close> pops \<open>B\<close> while \<open>A\<close>
  is in flight. The call for \<open>A\<close> fails and \<open>A\<close> waits 200 ms; the call for \<open>B\<close>
  delivers, and the status of \<open>B\<close> is recorded at time \<open>0\<close>; the status of \<open>A\<close> is
  recorded at time \<open>200\<close>, after its second attempt. The statuses are recorded in the
  order \<open>B\<close>, \<open>A\<close>.
\<close>

theorem overlapping_calls_resolve_out_of_order:
  "map_option (\<lambda>sys. (statusIds (trace (env sys)), trace (env sys), tasks sys))
     (run [Call 0 ''A'' ''a'', Call 0 ''B'' ''b'', Resume 0 0, Resume 0 1, Resume 0 1,
           Resume 200 0, Resume 200 0, Resume 200 0]
        (boot (new_EmailService [failsFirst ''P1''] 3 5) world0))
   = Some ([''B'', ''A''],
           [ProviderCall 0 ''a'', ProviderCall 0 ''b'', Slept 200, TimestampPushed 0,
            StatusSet ''B'' \<lparr> success = True, message = ''Email sent successfully.'' \<rparr>,
            ProviderCall 0 ''a'', TimestampPushed 200,
            StatusSet ''A'' \<lparr> success = True, message = ''Email sent successfully.'' \<rparr>],
           [Settled (Inr Undefined), Settled (Inr Undefined)])"
  by (simp add: stepping failsFirst_def)

end
